theory Spec2Isabelle
  imports Main "HOL-Library.Word"
begin

unbundle bit_operations_syntax

section \<open>C types and constants of chd.c\<close>

text \<open>
  \<^verbatim>\<open>wchar_t\<close> and \<^verbatim>\<open>wint_t\<close> are 32 bits wide. \<^verbatim>\<open>wchar_t\<close> is a signed type, so the
  comparisons of the source on it read the word through \<open>sint\<close>; \<^verbatim>\<open>%X\<close> prints the
  same bits unsigned (\<open>unat\<close>). \<^verbatim>\<open>WEOF\<close> is \<^verbatim>\<open>0xffffffff\<close>.
\<close>

type_synonym byte = "8 word"
type_synonym wchar = "32 word"

definition WEOF :: wchar where
  "WEOF = - 1"

definition ctlpics :: wchar where
  "ctlpics = 0x2400"

definition replacechar :: wchar where
  "replacechar = 0xFFFD"

definition rawbyte :: wchar where
  "rawbyte = 0x10000000"

text \<open>A wide character literal \<^verbatim>\<open>L'c'\<close> and a wide string literal \<^verbatim>\<open>L"..."\<close>.\<close>

definition wc :: "char \<Rightarrow> wchar" where
  "wc c = of_char c"

definition wstr :: "string \<Rightarrow> wchar list" where
  "wstr s = map wc s"

section \<open>The formatted output of \<^verbatim>\<open>wprintf\<close>\<close>

text \<open>
  \<^verbatim>\<open>%X\<close> prints an unsigned value in upper-case hexadecimal with as many digits as the
  value needs (one digit for 0). A minimum field width pads on the left, with \<^verbatim>\<open>0\<close>
  under the \<^verbatim>\<open>0\<close> flag and with spaces otherwise; it never truncates.
\<close>

definition hexdigit :: "nat \<Rightarrow> char" where
  "hexdigit d = ''0123456789ABCDEF'' ! (d mod 16)"

fun hexstr :: "nat \<Rightarrow> string" where
  "hexstr n = (if n < 16 then [hexdigit n] else hexstr (n div 16) @ [hexdigit (n mod 16)])"

declare hexstr.simps [simp del]

definition padleft :: "nat \<Rightarrow> char \<Rightarrow> string \<Rightarrow> string" where
  "padleft w c s = replicate (w - length s) c @ s"

definition fmt_02X :: "nat \<Rightarrow> string" where
  "fmt_02X n = padleft 2 (CHR ''0'') (hexstr n)"

definition fmt_6X :: "nat \<Rightarrow> string" where
  "fmt_6X n = padleft 6 (CHR '' '') (hexstr n)"

definition fmt_08X :: "nat \<Rightarrow> string" where
  "fmt_08X n = padleft 8 (CHR ''0'') (hexstr n)"

section \<open>The locale of the C library\<close>

text \<open>
  chd.c calls \<^verbatim>\<open>setlocale(LC_ALL, "")\<close> and leaves the character encoding to the C
  library. The locale is a parameter of the model:
  \<^item> \<open>lc_mbrtowc\<close>: the conversion \<^verbatim>\<open>fgetwc\<close> applies to the unread bytes of a file,
    giving a wide character and the number of bytes it took, or the failure
    \<^verbatim>\<open>EILSEQ\<close>;
  \<^item> \<open>lc_wcrtomb\<close>: \<^verbatim>\<open>wcrtomb\<close> on a conversion state: the bytes stored in \<^verbatim>\<open>out\<close>
    (\<open>None\<close> for the return value \<^verbatim>\<open>(size_t)-1\<close>) and the new state;
  \<^item> \<open>lc_mbinit\<close>: the initial conversion state (a zeroed \<^verbatim>\<open>mbstate_t\<close>);
  \<^item> \<open>lc_wcwidth\<close> and \<open>lc_iswspace\<close>: \<^verbatim>\<open>wcwidth\<close> and \<^verbatim>\<open>iswspace\<close>.
\<close>

datatype mbresult = Decoded wchar nat | Ilseq

record 'm clocale =
  lc_mbrtowc :: "byte list \<Rightarrow> mbresult"
  lc_mbinit :: 'm
  lc_wcrtomb :: "'m \<Rightarrow> wchar \<Rightarrow> byte list option \<times> 'm"
  lc_wcwidth :: "wchar \<Rightarrow> int"
  lc_iswspace :: "wchar \<Rightarrow> bool"

section \<open>Dump format functions: \<^verbatim>\<open>renderdumpline\<close>\<close>

text \<open>
  The hex field of one character, lines 234-239:
  \<^verbatim>\<open>
  if (buf[i] < 256)            wprintf(L"    %02X", buf[i]);
  else if (buf[i] & rawbyte)   wprintf(L"   *%02X", buf[i] & 0xFF);
  else                         wprintf(L"%6X", buf[i]);
  \<close>
\<close>

definition hexfield :: "wchar \<Rightarrow> wchar list" where
  "hexfield c =
     (if sint c < 256 then wstr (''    '' @ fmt_02X (unat c))
      else if c AND rawbyte \<noteq> 0 then wstr (''   *'' @ fmt_02X (unat (c AND 0xFF)))
      else wstr (fmt_6X (unat c)))"

text \<open>
  Line 241: \<^verbatim>\<open>wprintf(L"%*s", 6 * (linesize - count) + 5, "")\<close>. A negative width
  argument is taken as the \<^verbatim>\<open>-\<close> flag with the positive width, so the empty string is
  padded to the absolute value of the width.
\<close>

definition padding :: "nat \<Rightarrow> nat \<Rightarrow> wchar list" where
  "padding linesize count =
     replicate (nat \<bar>6 * (int linesize - int count) + 5\<bar>) (wc (CHR '' ''))"

text \<open>
  The glyph of one character, lines 243-258:
  \<^verbatim>\<open>
  switch (wcwidth(buf[i])) {
    case 2:  putwchar(buf[i]); break;
    case 1:  putwchar(buf[i]); putwchar(L' '); break;
    default: if (buf[i] < 0x20) putwchar(ctlpics + buf[i]);
             else putwchar(replacechar);
             putwchar(L' '); break;
  }
  \<close>
\<close>

definition glyph :: "'m clocale \<Rightarrow> wchar \<Rightarrow> wchar list" where
  "glyph L c =
     (if lc_wcwidth L c = 2 then [c]
      else if lc_wcwidth L c = 1 then [c, wc (CHR '' '')]
      else [if sint c < 0x20 then ctlpics + c else replacechar, wc (CHR '' '')])"

text \<open>
  \<^verbatim>\<open>renderdumpline(buf, count, pos)\<close> reads \<^verbatim>\<open>buf[0]\<close> ... \<^verbatim>\<open>buf[count - 1]\<close>. The
  result is the wide text written to \<^verbatim>\<open>stdout\<close>. \<^verbatim>\<open>%08X\<close> prints the \<^verbatim>\<open>int\<close>
  \<^verbatim>\<open>pos\<close> as an \<^verbatim>\<open>unsigned int\<close>.
\<close>

definition address :: "int \<Rightarrow> wchar list" where
  "address pos = wstr (fmt_08X (nat (pos mod 2 ^ 32)) @ '': '')"

definition renderdumpline :: "'m clocale \<Rightarrow> nat \<Rightarrow> wchar list \<Rightarrow> nat \<Rightarrow> int \<Rightarrow> wchar list" where
  "renderdumpline L linesize buf count pos =
     address pos
     @ concat (map hexfield (take count buf))
     @ padding linesize count
     @ concat (map (glyph L) (take count buf))
     @ [wc (CHR 0x0A)]"

section \<open>Dump format functions: \<^verbatim>\<open>translatedumpline\<close>\<close>

subsection \<open>The conversions of \<^verbatim>\<open>swscanf\<close>\<close>

text \<open>
  \<^verbatim>\<open>swscanf(p, L"%6X", &ch)\<close> and \<^verbatim>\<open>swscanf(p, L" *%2X", &ch)\<close> follow ISO C
  (7.29.2.2, \<^verbatim>\<open>fwscanf\<close>). The conversion \<^verbatim>\<open>%wX\<close> first skips white space, which "is not
  counted against a specified field width"; an empty rest is an input failure (the
  call returns \<^verbatim>\<open>EOF\<close>). Then the input item is the longest sequence of at most \<open>w\<close>
  characters that is a prefix of an optionally signed hexadecimal integer with an
  optional \<^verbatim>\<open>0x\<close> prefix; when the item holds no digit the directive fails (the call
  returns 0). Otherwise the value is stored, as an \<^verbatim>\<open>unsigned int\<close>, and the call
  returns 1. \<open>scan_hex\<close> gives \<open>Some\<close> of the stored value exactly when the call with the
  single directive \<^verbatim>\<open>%wX\<close> returns 1.
\<close>

definition is_xdigit :: "wchar \<Rightarrow> bool" where
  "is_xdigit c \<longleftrightarrow>
     (wc (CHR ''0'') \<le> c \<and> c \<le> wc (CHR ''9'')) \<or>
     (wc (CHR ''A'') \<le> c \<and> c \<le> wc (CHR ''F'')) \<or>
     (wc (CHR ''a'') \<le> c \<and> c \<le> wc (CHR ''f''))"

definition xdigit_val :: "wchar \<Rightarrow> wchar" where
  "xdigit_val c =
     (if c \<le> wc (CHR ''9'') then c - wc (CHR ''0'')
      else if c \<le> wc (CHR ''F'') then c - wc (CHR ''A'') + 10
      else c - wc (CHR ''a'') + 10)"

fun hexval :: "wchar \<Rightarrow> wchar list \<Rightarrow> wchar" where
  "hexval acc [] = acc"
| "hexval acc (d # ds) = hexval (acc * 16 + xdigit_val d) ds"

definition is_sign :: "wchar \<Rightarrow> bool" where
  "is_sign c \<longleftrightarrow> c = wc (CHR ''+'') \<or> c = wc (CHR ''-'')"

definition has_0x :: "wchar list \<Rightarrow> bool" where
  "has_0x s \<longleftrightarrow>
     (case s of
        a # b # _ \<Rightarrow> a = wc (CHR ''0'') \<and> (b = wc (CHR ''x'') \<or> b = wc (CHR ''X''))
      | _ \<Rightarrow> False)"

definition scan_hex :: "'m clocale \<Rightarrow> nat \<Rightarrow> wchar list \<Rightarrow> wchar option" where
  "scan_hex L w s =
     (case dropWhile (lc_iswspace L) s of
        [] \<Rightarrow> None
      | c # r \<Rightarrow>
          let signed = (1 \<le> w \<and> is_sign c);
              s1 = (if signed then r else c # r);
              w1 = (if signed then w - 1 else w);
              prefixed = (2 \<le> w1 \<and> has_0x s1);
              s2 = (if prefixed then drop 2 s1 else s1);
              w2 = (if prefixed then w1 - 2 else w1);
              ds = takeWhile is_xdigit (take w2 s2)
          in if ds = [] then None
             else if signed \<and> c = wc (CHR ''-'') then Some (- hexval 0 ds)
             else Some (hexval 0 ds))"

text \<open>
  \<^verbatim>\<open>L" *%2X"\<close>: the white-space directive skips any white space, the directive \<^verbatim>\<open>*\<close>
  needs that very character next, and \<^verbatim>\<open>%2X\<close> converts what follows.
\<close>

definition scan_star_hex :: "'m clocale \<Rightarrow> wchar list \<Rightarrow> wchar option" where
  "scan_star_hex L s =
     (case dropWhile (lc_iswspace L) s of
        [] \<Rightarrow> None
      | c # r \<Rightarrow> if c = wc (CHR ''*'') then scan_hex L 2 r else None)"

subsection \<open>The parser\<close>

text \<open>
  The output side of \<^verbatim>\<open>translatedumpline\<close>: its static conversion state \<^verbatim>\<open>mbs\<close>, and
  \<^verbatim>\<open>stdout\<close> as the sequence of byte blocks written, one for each call of \<^verbatim>\<open>fwrite\<close>.
\<close>

record 'm outstate =
  mbs :: 'm
  written :: "byte list list"

definition stdout_bytes :: "'m outstate \<Rightarrow> byte list" where
  "stdout_bytes st = concat (written st)"

text \<open>
  Where the C code leaves defined behaviour the model stops with an error:
  \<^item> \<open>ReadPastTerminator\<close>: \<^verbatim>\<open>p += 6\<close> has moved \<^verbatim>\<open>p\<close> beyond the terminating null of
    the line and \<^verbatim>\<open>swscanf\<close> is called there;
  \<^item> \<open>BadWriteLength\<close>: \<^verbatim>\<open>wcrtomb\<close> has returned \<^verbatim>\<open>(size_t)-1\<close> and the value goes into
    the length of \<^verbatim>\<open>fwrite\<close> (or into the index \<^verbatim>\<open>out[n - 1]\<close>);
  \<^item> \<open>Die\<close>: the function \<^verbatim>\<open>die\<close> was called: the message is printed on \<^verbatim>\<open>stderr\<close> and
    the program exits with \<^verbatim>\<open>EXIT_FAILURE\<close>;
  \<^item> \<open>ExitHelp\<close> and \<open>ExitVersion\<close>: \<^verbatim>\<open>exit(0)\<close> behind the help or version text.
\<close>

datatype error = ReadPastTerminator | BadWriteLength | Die string | ExitHelp | ExitVersion

definition fwrite :: "byte list \<Rightarrow> 'm outstate \<Rightarrow> 'm outstate" where
  "fwrite bs st = st\<lparr>written := written st @ [bs]\<rparr>"

text \<open>
  The loop of lines 287-301, with \<^verbatim>\<open>p\<close> as an index into the line (the wide string
  without its terminating null):
  \<^verbatim>\<open>
  for (i = 0 ; i < linesize ; ++i) {
      if (swscanf(p, L"%6X", &ch) == 1) {
          n = wcrtomb(out, ch, &mbs);
          if (n < 0) n = wcrtomb(out, replacechar, &mbs);
          fwrite(out, n, 1, stdout);
      } else if (swscanf(p, L" *%2X", &ch) == 1) {
          n = wcrtomb(out, L'\0', &mbs);
          out[n - 1] = ch;
          fwrite(out, n, 1, stdout);
      } else break;
      p += 6;
  }
  return i;
  \<close>
\<close>

function translate_fields ::
  "'m clocale \<Rightarrow> nat \<Rightarrow> wchar list \<Rightarrow> nat \<Rightarrow> nat \<Rightarrow> 'm outstate \<Rightarrow> error + nat \<times> 'm outstate" where
  "translate_fields L linesize line p i st =
     (if \<not> i < linesize then Inr (i, st)
      else if length line < p then Inl ReadPastTerminator
      else case scan_hex L 6 (drop p line) of
        Some ch \<Rightarrow>
          (case lc_wcrtomb L (mbs st) ch of
             (Some bs, m1) \<Rightarrow>
               translate_fields L linesize line (p + 6) (i + 1) (fwrite bs (st\<lparr>mbs := m1\<rparr>))
           | (None, m1) \<Rightarrow>
               (case lc_wcrtomb L m1 replacechar of
                  (Some bs, m2) \<Rightarrow>
                    translate_fields L linesize line (p + 6) (i + 1) (fwrite bs (st\<lparr>mbs := m2\<rparr>))
                | (None, m2) \<Rightarrow> Inl BadWriteLength))
      | None \<Rightarrow>
          (case scan_star_hex L (drop p line) of
             Some ch \<Rightarrow>
               (case lc_wcrtomb L (mbs st) 0 of
                  (Some bs, m1) \<Rightarrow>
                    if bs = [] then Inl BadWriteLength
                    else translate_fields L linesize line (p + 6) (i + 1)
                           (fwrite (bs[length bs - 1 := ucast ch]) (st\<lparr>mbs := m1\<rparr>))
                | (None, m1) \<Rightarrow> Inl BadWriteLength)
           | None \<Rightarrow> Inr (i, st)))"
  by pat_completeness auto
termination
  by (relation "measure (\<lambda>(L, linesize, line, p, i, st). linesize - i)") auto

declare translate_fields.simps [simp del]

text \<open>
  \<^verbatim>\<open>translatedumpline(line)\<close>. \<open>None\<close> is the call with \<^verbatim>\<open>NULL\<close>, which writes
  \<^verbatim>\<open>wcrtomb(out, L'\0', &mbs) - 1\<close> bytes of \<^verbatim>\<open>out\<close>. Otherwise the line is the wide
  string that \<^verbatim>\<open>fgetws\<close> stored, which ends at the first null character.
\<close>

definition translatedumpline ::
  "'m clocale \<Rightarrow> nat \<Rightarrow> wchar list option \<Rightarrow> 'm outstate \<Rightarrow> error + nat \<times> 'm outstate" where
  "translatedumpline L linesize line st =
     (case line of
        None \<Rightarrow>
          (case lc_wcrtomb L (mbs st) 0 of
             (Some bs, m1) \<Rightarrow>
               if bs = [] then Inl BadWriteLength
               else Inr (0, fwrite (take (length bs - 1) bs) (st\<lparr>mbs := m1\<rparr>))
           | (None, m1) \<Rightarrow> Inl BadWriteLength)
      | Some l0 \<Rightarrow>
          let l = takeWhile (\<lambda>c. c \<noteq> 0) l0;
              p = length (takeWhile (\<lambda>c. c \<noteq> wc (CHR '' '')) l)
          in if p = length l then Inr (0, st)
             else translate_fields L linesize l (p + 1) 0 st)"

section \<open>File I/O\<close>

text \<open>
  An open \<^verbatim>\<open>FILE\<close>: the bytes not yet read and the error indicator. The only read
  error of the model is the conversion error \<^verbatim>\<open>EILSEQ\<close>.

  The \<^verbatim>\<open>state\<close> of the program. Each entry of \<open>filenames\<close> stands for one name of the
  list and holds what opening it gives: \<open>None\<close> when \<^verbatim>\<open>fopen\<close> fails, otherwise the
  contents of the file (of the standard input for the name \<^verbatim>\<open>-\<close>). The global
  \<^verbatim>\<open>exitcode\<close> is kept with it.
\<close>

record cfile =
  unread :: "byte list"
  ferr :: bool

record state =
  startoffset :: int
  maxinputlen :: int
  filenames :: "byte list option list"
  currentfile :: "cfile option"
  exitcode :: int

text \<open>
  \<^verbatim>\<open>fail\<close> prints a message and sets \<^verbatim>\<open>exitcode\<close> to \<^verbatim>\<open>EXIT_FAILURE\<close>.
\<close>

definition fail :: "state \<Rightarrow> state" where
  "fail s = s\<lparr>exitcode := 1\<rparr>"

text \<open>
  \<^verbatim>\<open>inputinit\<close>, lines 147-162:
  \<^verbatim>\<open>
  if (!s->currentfile) {
      if (!*s->filenames) return 0;
      if (!strcmp(*s->filenames, "-")) { s->currentfile = stdin; ... }
      else s->currentfile = fopen(*s->filenames, "r");
      if (!s->currentfile) { fail(s); ++s->filenames; return inputinit(s); }
  }
  return 1;
  \<close>
\<close>

function inputinit :: "state \<Rightarrow> bool \<times> state" where
  "inputinit s =
     (case currentfile s of
        Some f \<Rightarrow> (True, s)
      | None \<Rightarrow>
          (case filenames s of
             [] \<Rightarrow> (False, s)
           | None # rest \<Rightarrow> inputinit ((fail s)\<lparr>filenames := rest\<rparr>)
           | Some bytes # rest \<Rightarrow> (True, s\<lparr>currentfile := Some \<lparr>unread = bytes, ferr = False\<rparr>\<rparr>)))"
  by pat_completeness auto
termination
  by (relation "measure (\<lambda>s. length (filenames s))") (auto simp: fail_def)

declare inputinit.simps [simp del]

text \<open>
  \<^verbatim>\<open>inputupdate\<close>, lines 169-178, which the program calls with an open file only:
  \<^verbatim>\<open>
  if (ferror(s->currentfile)) { fail(s); fclose(s->currentfile); }
  else { if (s->currentfile != stdin) if (fclose(s->currentfile)) fail(s); }
  s->currentfile = 0;
  ++s->filenames;
  \<close>
  Closing a file does not fail in the model.
\<close>

definition inputupdate :: "state \<Rightarrow> state" where
  "inputupdate s =
     (case currentfile s of
        None \<Rightarrow> s
      | Some f \<Rightarrow>
          (if ferr f then fail s else s)\<lparr>currentfile := None, filenames := tl (filenames s)\<rparr>)"

text \<open>
  \<^verbatim>\<open>fgetwc\<close>: at the end of the file \<^verbatim>\<open>WEOF\<close>; otherwise the locale converts the next
  bytes, and a character takes at least one byte; on \<^verbatim>\<open>EILSEQ\<close> the error indicator is
  set, nothing is consumed and \<^verbatim>\<open>WEOF\<close> is returned. \<^verbatim>\<open>fgetc\<close> returns the next byte
  as an \<^verbatim>\<open>int\<close>, or \<^verbatim>\<open>EOF\<close>, which is -1.
\<close>

definition fgetwc :: "'m clocale \<Rightarrow> cfile \<Rightarrow> wchar \<times> cfile" where
  "fgetwc L f =
     (case unread f of
        [] \<Rightarrow> (WEOF, f)
      | b # bs \<Rightarrow>
          (case lc_mbrtowc L (b # bs) of
             Decoded c n \<Rightarrow> (c, f\<lparr>unread := drop (max 1 n) (b # bs)\<rparr>)
           | Ilseq \<Rightarrow> (WEOF, f\<lparr>ferr := True\<rparr>)))"

definition fgetc :: "cfile \<Rightarrow> wchar \<times> cfile" where
  "fgetc f =
     (case unread f of
        [] \<Rightarrow> (- 1, f)
      | b # bs \<Rightarrow> (ucast b, f\<lparr>unread := bs\<rparr>))"

definition clearerr :: "cfile \<Rightarrow> cfile" where
  "clearerr f = f\<lparr>ferr := False\<rparr>"

text \<open>
  \<^verbatim>\<open>inputinit\<close> returns 1 only with an open file, and it never lengthens the list of
  names; the loop of \<^verbatim>\<open>nextwchar\<close> ends because each further round has closed a file.
\<close>

lemma inputinit_open:
  "inputinit s = (True, s1) \<Longrightarrow> currentfile s1 \<noteq> None"
proof (induction s rule: inputinit.induct)
  case (1 s)
  then show ?case
    by (subst (asm) (2) inputinit.simps)
       (auto split: option.splits list.splits)
qed

lemma inputinit_names:
  "inputinit s = (ok, s1) \<Longrightarrow>
     length (filenames s1) \<le> length (filenames s) \<and>
     (ok \<and> currentfile s = None \<longrightarrow> filenames s1 \<noteq> [])"
proof (induction s arbitrary: ok s1 rule: inputinit.induct)
  case (1 s)
  show ?case
  proof (cases "currentfile s")
    case None
    show ?thesis
    proof (cases "filenames s")
      case Nil
      with None "1.prems" show ?thesis
        by (simp add: inputinit.simps [of s])
    next
      case (Cons e rest)
      show ?thesis
      proof (cases e)
        case None' : None
        from None Cons None' "1.prems"
        have "inputinit ((fail s)\<lparr>filenames := rest\<rparr>) = (ok, s1)"
          by (simp add: inputinit.simps [of s])
        from "1.IH" [OF None Cons None' this] None Cons show ?thesis
          by (auto simp: fail_def)
      next
        case (Some bytes)
        with None Cons "1.prems" show ?thesis
          by (auto simp: inputinit.simps [of s])
      qed
    qed
  next
    case (Some f)
    with "1.prems" show ?thesis
      by (simp add: inputinit.simps [of s])
  qed
qed

definition files_left :: "state \<Rightarrow> nat" where
  "files_left s = 2 * length (filenames s) + (if currentfile s = None then 0 else 1)"

lemma inputupdate_files_left:
  assumes "(True, s1) = inputinit s"
  shows "files_left (inputupdate (s1\<lparr>currentfile := Some f1\<rparr>)) < files_left s"
proof -
  from assms have ii: "inputinit s = (True, s1)" by simp
  from inputinit_names [OF ii] have
    len: "length (filenames s1) \<le> length (filenames s)" and
    ne: "currentfile s = None \<longrightarrow> filenames s1 \<noteq> []"
    by simp_all
  show ?thesis
  proof (cases "currentfile s")
    case None
    with ne have "filenames s1 \<noteq> []" by simp
    then have "length (tl (filenames s1)) < length (filenames s)"
      using len by (cases "filenames s1") auto
    then show ?thesis by (simp add: inputupdate_def fail_def files_left_def)
  next
    case (Some g)
    have "length (tl (filenames s1)) \<le> length (filenames s)"
      using len by (cases "filenames s1") auto
    with Some show ?thesis by (simp add: inputupdate_def fail_def files_left_def)
  qed
qed

text \<open>
  \<^verbatim>\<open>nextwchar\<close>, lines 193-204:
  \<^verbatim>\<open>
  for (;;) {
      if (!inputinit(s)) return WEOF;
      ch = fgetwc(s->currentfile);
      if (ch != WEOF) return ch;
      if (ferror(s->currentfile) && errno == EILSEQ && acceptbadchars) {
          clearerr(s->currentfile);
          return rawbyte | fgetc(s->currentfile);
      }
      inputupdate(s);
  }
  \<close>
\<close>

function nextwchar :: "'m clocale \<Rightarrow> bool \<Rightarrow> state \<Rightarrow> wchar \<times> state" where
  "nextwchar L acceptbadchars s =
     (case inputinit s of
        (False, s1) \<Rightarrow> (WEOF, s1)
      | (True, s1) \<Rightarrow>
          (case currentfile s1 of
             None \<Rightarrow> (WEOF, s1)
           | Some f \<Rightarrow>
               (case fgetwc L f of
                  (ch, f1) \<Rightarrow>
                    if ch \<noteq> WEOF then (ch, s1\<lparr>currentfile := Some f1\<rparr>)
                    else if ferr f1 \<and> acceptbadchars then
                      (case fgetc (clearerr f1) of
                         (b, f2) \<Rightarrow> (rawbyte OR b, s1\<lparr>currentfile := Some f2\<rparr>))
                    else nextwchar L acceptbadchars (inputupdate (s1\<lparr>currentfile := Some f1\<rparr>)))))"
  by pat_completeness auto
termination
  by (relation "measure (\<lambda>(L, a, s). files_left s)") (auto simp: inputupdate_files_left)

declare nextwchar.simps [simp del]

text \<open>
  \<^verbatim>\<open>fgetws(buf, buflen, file)\<close> reads at most \<^verbatim>\<open>buflen - 1\<close> wide characters and stops
  behind a newline or at the end of the file. It returns \<^verbatim>\<open>NULL\<close> when it has read no
  character or when the error indicator of the file is set.
\<close>

fun fgetws_read :: "'m clocale \<Rightarrow> nat \<Rightarrow> cfile \<Rightarrow> wchar list \<Rightarrow> wchar list \<times> cfile" where
  "fgetws_read L 0 f acc = (acc, f)"
| "fgetws_read L (Suc k) f acc =
     (case fgetwc L f of
        (ch, f1) \<Rightarrow>
          if ch = WEOF then (acc, f1)
          else if ch = wc (CHR 0x0A) then (acc @ [ch], f1)
          else fgetws_read L k f1 (acc @ [ch]))"

definition fgetws :: "'m clocale \<Rightarrow> nat \<Rightarrow> cfile \<Rightarrow> wchar list option \<times> cfile" where
  "fgetws L buflen f =
     (case fgetws_read L (buflen - 1) f [] of
        (l, f1) \<Rightarrow> if l = [] \<or> ferr f1 then (None, f1) else (Some l, f1))"

text \<open>
  \<^verbatim>\<open>nextwline\<close>, lines 212-218; the result is the line stored in \<^verbatim>\<open>buf\<close> when the
  function returns 1, and \<open>None\<close> when it returns 0.
  \<^verbatim>\<open>
  for (;;) {
      if (!inputinit(s)) return 0;
      if (fgetws(buf, buflen, s->currentfile)) return 1;
      inputupdate(s);
  }
  \<close>
\<close>

function nextwline :: "'m clocale \<Rightarrow> nat \<Rightarrow> state \<Rightarrow> wchar list option \<times> state" where
  "nextwline L buflen s =
     (case inputinit s of
        (False, s1) \<Rightarrow> (None, s1)
      | (True, s1) \<Rightarrow>
          (case currentfile s1 of
             None \<Rightarrow> (None, s1)
           | Some f \<Rightarrow>
               (case fgetws L buflen f of
                  (Some l, f1) \<Rightarrow> (Some l, s1\<lparr>currentfile := Some f1\<rparr>)
                | (None, f1) \<Rightarrow> nextwline L buflen (inputupdate (s1\<lparr>currentfile := Some f1\<rparr>)))))"
  by pat_completeness auto
termination
  by (relation "measure (\<lambda>(L, n, s). files_left s)") (auto simp: inputupdate_files_left)

declare nextwline.simps [simp del]

section \<open>The main program functions\<close>

text \<open>
  The bytes still to be read: those of the open file and of the names behind it. No
  function of the reader adds to them, and each character and each line delivered takes
  at least one of them; so \<^verbatim>\<open>undump\<close> comes to the end of its input.
\<close>

definition names_bytes :: "byte list option list \<Rightarrow> nat" where
  "names_bytes es = sum_list (map (\<lambda>e. case e of None \<Rightarrow> 0 | Some b \<Rightarrow> length b) es)"

definition bytes_left :: "state \<Rightarrow> nat" where
  "bytes_left s =
     (case currentfile s of
        None \<Rightarrow> names_bytes (filenames s)
      | Some f \<Rightarrow> length (unread f) + names_bytes (tl (filenames s)))"

lemma inputinit_bytes_left:
  "inputinit s = (ok, s1) \<Longrightarrow> bytes_left s1 = bytes_left s"
proof (induction s arbitrary: ok s1 rule: inputinit.induct)
  case (1 s)
  show ?case
  proof (cases "currentfile s")
    case None
    show ?thesis
    proof (cases "filenames s")
      case Nil
      with None "1.prems" show ?thesis
        by (simp add: inputinit.simps [of s])
    next
      case (Cons e rest)
      show ?thesis
      proof (cases e)
        case None' : None
        from None Cons None' "1.prems"
        have "inputinit ((fail s)\<lparr>filenames := rest\<rparr>) = (ok, s1)"
          by (simp add: inputinit.simps [of s])
        from "1.IH" [OF None Cons None' this] None Cons None' show ?thesis
          by (simp add: fail_def bytes_left_def names_bytes_def)
      next
        case (Some bytes)
        with None Cons "1.prems" show ?thesis
          by (auto simp: inputinit.simps [of s] bytes_left_def names_bytes_def)
      qed
    qed
  next
    case (Some f)
    with "1.prems" show ?thesis
      by (simp add: inputinit.simps [of s])
  qed
qed

lemma fgetwc_unread:
  "fgetwc L f = (ch, f1) \<Longrightarrow>
     length (unread f1) \<le> length (unread f) \<and> (ch \<noteq> WEOF \<longrightarrow> length (unread f1) < length (unread f))"
  by (auto simp: fgetwc_def split: list.splits mbresult.splits)

lemma inputupdate_bytes_left: "bytes_left (inputupdate s) \<le> bytes_left s"
  by (simp add: inputupdate_def bytes_left_def fail_def split: option.splits)

lemma rawbyte_or_EOF: "rawbyte OR - 1 = WEOF"
  by (simp add: rawbyte_def WEOF_def)

lemma nextwchar_bytes_left:
  "nextwchar L a s = (ch, s2) \<Longrightarrow>
     bytes_left s2 \<le> bytes_left s \<and> (ch \<noteq> WEOF \<longrightarrow> bytes_left s2 < bytes_left s)"
proof (induction L a s arbitrary: ch s2 rule: nextwchar.induct)
  case (1 L a s)
  obtain ok s1 where ii: "inputinit s = (ok, s1)" by (cases "inputinit s")
  note bl = inputinit_bytes_left [OF ii]
  show ?case
  proof (cases ok)
    case False
    with ii "1.prems" bl show ?thesis
      by (simp add: nextwchar.simps [of L a s])
  next
    case True
    show ?thesis
    proof (cases "currentfile s1")
      case None
      with True ii "1.prems" bl show ?thesis
        by (simp add: nextwchar.simps [of L a s])
    next
      case (Some f)
      obtain c f1 where fg: "fgetwc L f = (c, f1)" by (cases "fgetwc L f")
      note un = fgetwc_unread [OF fg]
      from "1.prems" True ii Some fg
      have p: "(if c \<noteq> WEOF then (c, s1\<lparr>currentfile := Some f1\<rparr>)
                else if ferr f1 \<and> a then
                  (case fgetc (clearerr f1) of (b, f2) \<Rightarrow> (rawbyte OR b, s1\<lparr>currentfile := Some f2\<rparr>))
                else nextwchar L a (inputupdate (s1\<lparr>currentfile := Some f1\<rparr>))) = (ch, s2)"
        by (simp add: nextwchar.simps [of L a s])
      consider (char) "c \<noteq> WEOF" | (raw) "c = WEOF" "ferr f1 \<and> a" | (eof) "c = WEOF" "\<not> (ferr f1 \<and> a)"
        by blast
      then show ?thesis
      proof cases
        case char
        with p have "ch = c" "s2 = s1\<lparr>currentfile := Some f1\<rparr>"
          by simp_all
        with char un bl Some show ?thesis
          by (simp add: bytes_left_def)
      next
        case raw
        obtain b f2 where fc: "fgetc (clearerr f1) = (b, f2)" by (cases "fgetc (clearerr f1)")
        with raw p have r: "ch = rawbyte OR b" "s2 = s1\<lparr>currentfile := Some f2\<rparr>"
          by simp_all
        show ?thesis
        proof (cases "unread f1")
          case Nil
          with fc have "b = - 1" "f2 = clearerr f1" by (simp_all add: fgetc_def clearerr_def)
          with r Nil un bl Some show ?thesis
            by (simp add: bytes_left_def WEOF_def clearerr_def)
        next
          case (Cons x xs)
          with fc have "unread f2 = xs" by (auto simp: fgetc_def clearerr_def)
          with r Cons un bl Some show ?thesis
            by (simp add: bytes_left_def)
        qed
      next
        case eof
        with p
        have rec: "nextwchar L a (inputupdate (s1\<lparr>currentfile := Some f1\<rparr>)) = (ch, s2)"
          by simp
        have step: "bytes_left (inputupdate (s1\<lparr>currentfile := Some f1\<rparr>)) \<le> bytes_left s"
          using inputupdate_bytes_left [of "s1\<lparr>currentfile := Some f1\<rparr>"] un bl Some
          by (simp add: bytes_left_def)
        from "1.IH" [OF ii [symmetric] _ Some fg [symmetric] _ _ rec] True eof step
        show ?thesis by auto
      qed
    qed
  qed
qed

lemma fgetws_read_unread:
  "fgetws_read L k f acc = (l, f1) \<Longrightarrow>
     length (unread f1) \<le> length (unread f) \<and>
     (l \<noteq> acc \<longrightarrow> length (unread f1) < length (unread f))"
proof (induction k arbitrary: f acc)
  case 0
  then show ?case by simp
next
  case (Suc k)
  obtain c f0 where fg: "fgetwc L f = (c, f0)" by (cases "fgetwc L f")
  note un = fgetwc_unread [OF fg]
  consider (eof) "c = WEOF" | (nl) "c \<noteq> WEOF" "c = wc (CHR 0x0A)" | (other) "c \<noteq> WEOF" "c \<noteq> wc (CHR 0x0A)"
    by blast
  then show ?case
  proof cases
    case eof
    with Suc.prems fg un show ?thesis by simp
  next
    case nl
    with Suc.prems fg un show ?thesis by auto
  next
    case other
    with Suc.prems fg have "fgetws_read L k f0 (acc @ [c]) = (l, f1)" by simp
    from Suc.IH [OF this] un other show ?thesis by auto
  qed
qed

lemma fgetws_unread:
  "fgetws L n f = (Some l, f1) \<Longrightarrow> length (unread f1) < length (unread f)"
  by (auto simp: fgetws_def split: prod.splits if_splits dest: fgetws_read_unread)

lemma fgetws_unread_le:
  "fgetws L n f = (r, f1) \<Longrightarrow> length (unread f1) \<le> length (unread f)"
  by (auto simp: fgetws_def split: prod.splits if_splits dest: fgetws_read_unread)

lemma nextwline_bytes_left:
  "nextwline L n s = (r, s2) \<Longrightarrow>
     bytes_left s2 \<le> bytes_left s \<and> (r \<noteq> None \<longrightarrow> bytes_left s2 < bytes_left s)"
proof (induction L n s arbitrary: r s2 rule: nextwline.induct)
  case (1 L n s)
  obtain ok s1 where ii: "inputinit s = (ok, s1)" by (cases "inputinit s")
  note bl = inputinit_bytes_left [OF ii]
  show ?case
  proof (cases ok)
    case False
    with ii "1.prems" bl show ?thesis
      by (auto simp: nextwline.simps [of L n s])
  next
    case True
    show ?thesis
    proof (cases "currentfile s1")
      case None
      with True ii "1.prems" bl show ?thesis
        by (auto simp: nextwline.simps [of L n s])
    next
      case (Some f)
      obtain x f1 where fg: "fgetws L n f = (x, f1)" by (cases "fgetws L n f")
      show ?thesis
      proof (cases x)
        case x: (Some l)
        with True ii Some fg "1.prems" have "r = Some l" "s2 = s1\<lparr>currentfile := Some f1\<rparr>"
          by (simp_all add: nextwline.simps [of L n s])
        with fgetws_unread [OF fg [unfolded x]] bl Some show ?thesis
          by (simp add: bytes_left_def)
      next
        case x: None
        with True ii Some fg "1.prems"
        have rec: "nextwline L n (inputupdate (s1\<lparr>currentfile := Some f1\<rparr>)) = (r, s2)"
          by (simp add: nextwline.simps [of L n s])
        have step: "bytes_left (inputupdate (s1\<lparr>currentfile := Some f1\<rparr>)) \<le> bytes_left s"
          using inputupdate_bytes_left [of "s1\<lparr>currentfile := Some f1\<rparr>"]
            fgetws_unread_le [OF fg] bl Some
          by (simp add: bytes_left_def)
        from "1.IH" [OF ii [symmetric] _ Some fg [symmetric] _ rec] True x step
        show ?thesis by auto
      qed
    qed
  qed
qed

lemma bytes_left_maxinputlen: "bytes_left (s\<lparr>maxinputlen := m\<rparr>) = bytes_left s"
  by (simp add: bytes_left_def split: option.splits)

text \<open>
  The reader leaves \<^verbatim>\<open>startoffset\<close> and \<^verbatim>\<open>maxinputlen\<close> alone and does not depend on
  them.
\<close>

lemma inputinit_maxinputlen:
  "inputinit (s\<lparr>maxinputlen := m\<rparr>) = (case inputinit s of (ok, s1) \<Rightarrow> (ok, s1\<lparr>maxinputlen := m\<rparr>))"
proof (induction s rule: inputinit.induct)
  case (1 s)
  show ?case
  proof (cases "currentfile s")
    case None
    show ?thesis
    proof (cases "filenames s")
      case Nil
      with None show ?thesis
        by (simp add: inputinit.simps [of s] inputinit.simps [of "s\<lparr>maxinputlen := m\<rparr>"])
    next
      case (Cons e rest)
      show ?thesis
      proof (cases e)
        case None' : None
        have sw: "(fail (s\<lparr>maxinputlen := m\<rparr>))\<lparr>filenames := rest\<rparr> =
            ((fail s)\<lparr>filenames := rest\<rparr>)\<lparr>maxinputlen := m\<rparr>"
          by (cases s) (simp add: fail_def)
        from None Cons None'
        have "inputinit (s\<lparr>maxinputlen := m\<rparr>) =
            inputinit (((fail s)\<lparr>filenames := rest\<rparr>)\<lparr>maxinputlen := m\<rparr>)"
          by (simp add: inputinit.simps [of "s\<lparr>maxinputlen := m\<rparr>"] sw)
        also note "1.IH" [OF None Cons None']
        finally show ?thesis using None Cons None'
          by (simp add: inputinit.simps [of s])
      next
        case (Some bytes)
        with None Cons show ?thesis
          by (simp add: inputinit.simps [of s] inputinit.simps [of "s\<lparr>maxinputlen := m\<rparr>"])
      qed
    qed
  next
    case (Some f)
    then show ?thesis
      by (simp add: inputinit.simps [of s] inputinit.simps [of "s\<lparr>maxinputlen := m\<rparr>"])
  qed
qed

lemma inputinit_fields:
  "inputinit s = (ok, s1) \<Longrightarrow> startoffset s1 = startoffset s \<and> maxinputlen s1 = maxinputlen s"
proof (induction s arbitrary: ok s1 rule: inputinit.induct)
  case (1 s)
  show ?case
  proof (cases "currentfile s")
    case None
    show ?thesis
    proof (cases "filenames s")
      case Nil
      with None "1.prems" show ?thesis
        by (auto simp: inputinit.simps [of s])
    next
      case (Cons e rest)
      show ?thesis
      proof (cases e)
        case None' : None
        from None Cons None' "1.prems"
        have "inputinit ((fail s)\<lparr>filenames := rest\<rparr>) = (ok, s1)"
          by (simp add: inputinit.simps [of s])
        from "1.IH" [OF None Cons None' this] show ?thesis
          by (simp add: fail_def)
      next
        case (Some bytes)
        with None Cons "1.prems" show ?thesis
          by (auto simp: inputinit.simps [of s])
      qed
    qed
  next
    case (Some f)
    with "1.prems" show ?thesis
      by (auto simp: inputinit.simps [of s])
  qed
qed

lemma inputupdate_maxinputlen:
  "inputupdate (s\<lparr>maxinputlen := m\<rparr>) = (inputupdate s)\<lparr>maxinputlen := m\<rparr>"
  by (simp add: inputupdate_def fail_def split: option.splits)

lemma inputupdate_fields:
  "startoffset (inputupdate s) = startoffset s \<and> maxinputlen (inputupdate s) = maxinputlen s"
  by (simp add: inputupdate_def fail_def split: option.splits)

lemma nextwchar_fields:
  "nextwchar L a s = (ch, s2) \<Longrightarrow> startoffset s2 = startoffset s \<and> maxinputlen s2 = maxinputlen s"
proof (induction L a s arbitrary: ch s2 rule: nextwchar.induct)
  case (1 L a s)
  obtain ok s1 where ii: "inputinit s = (ok, s1)" by (cases "inputinit s")
  note fl = inputinit_fields [OF ii]
  show ?case
  proof (cases "ok \<and> currentfile s1 \<noteq> None")
    case False
    with ii "1.prems" fl show ?thesis
      by (auto simp: nextwchar.simps [of L a s] split: option.splits bool.splits)
  next
    case True
    then obtain f where ok: ok and Some: "currentfile s1 = Some f" by auto
    obtain c f1 where fg: "fgetwc L f = (c, f1)" by (cases "fgetwc L f")
    from "1.prems" ok ii Some fg
    have p: "(if c \<noteq> WEOF then (c, s1\<lparr>currentfile := Some f1\<rparr>)
              else if ferr f1 \<and> a then
                (case fgetc (clearerr f1) of (b, f2) \<Rightarrow> (rawbyte OR b, s1\<lparr>currentfile := Some f2\<rparr>))
              else nextwchar L a (inputupdate (s1\<lparr>currentfile := Some f1\<rparr>))) = (ch, s2)"
      by (simp add: nextwchar.simps [of L a s])
    show ?thesis
    proof (cases "c = WEOF \<and> \<not> (ferr f1 \<and> a)")
      case True
      with p have rec: "nextwchar L a (inputupdate (s1\<lparr>currentfile := Some f1\<rparr>)) = (ch, s2)"
        by simp
      from "1.IH" [OF ii [symmetric] _ Some fg [symmetric] _ _ rec] ok True fl
        inputupdate_fields [of "s1\<lparr>currentfile := Some f1\<rparr>"]
      show ?thesis by auto
    next
      case False
      with p fl show ?thesis
        by (auto split: if_splits prod.splits)
    qed
  qed
qed

lemma maxinputlen_currentfile_swap:
  "s\<lparr>maxinputlen := m, currentfile := c\<rparr> = s\<lparr>currentfile := c, maxinputlen := m\<rparr>"
  by (cases s) simp

lemma nextwchar_maxinputlen:
  "nextwchar L a (s\<lparr>maxinputlen := m\<rparr>) =
     (case nextwchar L a s of (ch, s2) \<Rightarrow> (ch, s2\<lparr>maxinputlen := m\<rparr>))"
proof (induction L a s rule: nextwchar.induct)
  case (1 L a s)
  obtain ok s1 where ii: "inputinit s = (ok, s1)" by (cases "inputinit s")
  then have ii': "inputinit (s\<lparr>maxinputlen := m\<rparr>) = (ok, s1\<lparr>maxinputlen := m\<rparr>)"
    by (simp add: inputinit_maxinputlen)
  show ?case
  proof (cases "ok \<and> currentfile s1 \<noteq> None")
    case False
    with ii ii' show ?thesis
      by (auto simp: nextwchar.simps [of L a s] nextwchar.simps [of L a "s\<lparr>maxinputlen := m\<rparr>"]
          split: option.splits bool.splits)
  next
    case True
    then obtain f where ok: ok and Some: "currentfile s1 = Some f" by auto
    obtain c f1 where fg: "fgetwc L f = (c, f1)" by (cases "fgetwc L f")
    show ?thesis
    proof (cases "c = WEOF \<and> \<not> (ferr f1 \<and> a)")
      case True
      from "1.IH" [OF ii [symmetric] _ Some fg [symmetric]] ok True
      have "nextwchar L a ((inputupdate (s1\<lparr>currentfile := Some f1\<rparr>))\<lparr>maxinputlen := m\<rparr>) =
        (case nextwchar L a (inputupdate (s1\<lparr>currentfile := Some f1\<rparr>)) of
           (ch, s2) \<Rightarrow> (ch, s2\<lparr>maxinputlen := m\<rparr>))"
        by auto
      with True ok ii ii' Some fg show ?thesis
        by (auto simp: nextwchar.simps [of L a s] nextwchar.simps [of L a "s\<lparr>maxinputlen := m\<rparr>"]
            inputupdate_maxinputlen maxinputlen_currentfile_swap)
    next
      case False
      with ok ii ii' Some fg show ?thesis
        by (auto simp: nextwchar.simps [of L a s] nextwchar.simps [of L a "s\<lparr>maxinputlen := m\<rparr>"]
            maxinputlen_currentfile_swap split: prod.splits)
    qed
  qed
qed

lemma nextwchar_startoffset:
  "(ch, s2) = nextwchar L a s \<Longrightarrow> startoffset s2 = startoffset s"
  using nextwchar_fields [of L a s ch s2] by simp

text \<open>
  \<^verbatim>\<open>dump\<close>, lines 319-333. The first loop skips \<^verbatim>\<open>startoffset\<close> characters:
  \<^verbatim>\<open>
  for (pos = 0 ; ch != WEOF && pos < s->startoffset ; ++pos)
      ch = nextwchar(s);
  \<close>
\<close>

function dump_skip :: "'m clocale \<Rightarrow> bool \<Rightarrow> wchar \<times> int \<times> state \<Rightarrow> wchar \<times> int \<times> state" where
  "dump_skip L acceptbadchars (ch, pos, s) =
     (if ch \<noteq> WEOF \<and> pos < startoffset s then
        (case nextwchar L acceptbadchars s of
           (ch1, s1) \<Rightarrow> dump_skip L acceptbadchars (ch1, pos + 1, s1))
      else (ch, pos, s))"
  by pat_completeness auto
termination
  by (relation "measure (\<lambda>(L, a, ch, pos, s). nat (startoffset s - pos))")
     (auto dest: nextwchar_startoffset)

declare dump_skip.simps [simp del]

text \<open>
  The inner loop fills the line buffer \<^verbatim>\<open>wchar_t line[256]\<close>:
  \<^verbatim>\<open>
  for (n = 0 ; n < linesize && s->maxinputlen > 0 ; ++n) {
      ch = nextwchar(s);
      if (ch == WEOF) break;
      line[n] = ch;
      --s->maxinputlen;
  }
  \<close>
\<close>

function dump_fill ::
  "'m clocale \<Rightarrow> bool \<Rightarrow> nat \<Rightarrow> nat \<times> wchar \<times> wchar list \<times> state \<Rightarrow> nat \<times> wchar \<times> wchar list \<times> state" where
  "dump_fill L acceptbadchars linesize (n, ch, line, s) =
     (if n < linesize \<and> maxinputlen s > 0 then
        (case nextwchar L acceptbadchars s of
           (ch1, s1) \<Rightarrow>
             if ch1 = WEOF then (n, ch1, line, s1)
             else dump_fill L acceptbadchars linesize
                    (n + 1, ch1, line[n := ch1], s1\<lparr>maxinputlen := maxinputlen s1 - 1\<rparr>))
      else (n, ch, line, s))"
  by pat_completeness auto
termination
  by (relation "measure (\<lambda>(L, a, linesize, n, ch, line, s). linesize - n)") auto

declare dump_fill.simps [simp del]

text \<open>
  The outer loop, which does not end when \<^verbatim>\<open>linesize\<close> is 0. The result collects the
  wide text of each call of \<^verbatim>\<open>renderdumpline\<close>.
  \<^verbatim>\<open>
  while (ch != WEOF && s->maxinputlen > 0) {
      for (n = 0 ; ...) ...
      if (n) renderdumpline(line, n, pos);
      pos += n;
  }
  \<close>
\<close>

partial_function (option) dump_while ::
  "'m clocale \<Rightarrow> bool \<Rightarrow> nat \<Rightarrow> wchar \<times> int \<times> wchar list \<times> state \<times> wchar list list
    \<Rightarrow> (state \<times> wchar list list) option" where
  "dump_while L acceptbadchars linesize x =
     (case x of
        (ch, pos, line, s, out) \<Rightarrow>
          if ch \<noteq> WEOF \<and> maxinputlen s > 0 then
            (case dump_fill L acceptbadchars linesize (0, ch, line, s) of
               (n, ch1, line1, s1) \<Rightarrow>
                 dump_while L acceptbadchars linesize
                   (ch1, pos + int n, line1, s1,
                    if n \<noteq> 0 then out @ [renderdumpline L linesize line1 n pos] else out))
          else Some (s, out))"

text \<open>
  \<^verbatim>\<open>dump\<close> starts with \<^verbatim>\<open>ch = 0\<close> and \<^verbatim>\<open>pos = 0\<close>. The buffer \<^verbatim>\<open>line\<close> is not
  initialised, and no entry of it is read before it is written; it starts as 256
  null characters here.
\<close>

definition dump :: "'m clocale \<Rightarrow> bool \<Rightarrow> nat \<Rightarrow> state \<Rightarrow> (state \<times> wchar list list) option" where
  "dump L acceptbadchars linesize s =
     (case dump_skip L acceptbadchars (0, 0, s) of
        (ch, pos, s1) \<Rightarrow> dump_while L acceptbadchars linesize (ch, pos, replicate 256 0, s1, []))"

text \<open>
  \<^verbatim>\<open>undump\<close>, lines 343-348:
  \<^verbatim>\<open>
  len = linesize * 8 + 20;
  line = malloc(len * 4);
  while (nextwline(s, line, len) && s->maxinputlen > 0)
      s->maxinputlen -= translatedumpline(line);
  translatedumpline(NULL);
  \<close>
\<close>

function undump_loop ::
  "'m clocale \<Rightarrow> nat \<Rightarrow> state \<Rightarrow> 'm outstate \<Rightarrow> error + state \<times> 'm outstate" where
  "undump_loop L linesize s st =
     (case nextwline L (linesize * 8 + 20) s of
        (None, s1) \<Rightarrow> Inr (s1, st)
      | (Some line, s1) \<Rightarrow>
          if maxinputlen s1 > 0 then
            (case translatedumpline L linesize (Some line) st of
               Inl e \<Rightarrow> Inl e
             | Inr (k, st1) \<Rightarrow>
                 undump_loop L linesize (s1\<lparr>maxinputlen := maxinputlen s1 - int k\<rparr>) st1)
          else Inr (s1, st))"
  by pat_completeness auto
termination
proof (relation "measure (\<lambda>(L, linesize, s, st). bytes_left s)", goal_cases)
  case 1
  show ?case by simp
next
  case (2 L linesize s st x1 s1 line x2 k st1)
  then have "nextwline L (linesize * 8 + 20) s = (Some line, s1)" by simp
  from nextwline_bytes_left [OF this] show ?case
    by (simp add: bytes_left_maxinputlen)
qed


declare undump_loop.simps [simp del]

definition undump :: "'m clocale \<Rightarrow> nat \<Rightarrow> state \<Rightarrow> 'm outstate \<Rightarrow> error + state \<times> 'm outstate" where
  "undump L linesize s st =
     (case undump_loop L linesize s st of
        Inl e \<Rightarrow> Inl e
      | Inr (s1, st1) \<Rightarrow>
          (case translatedumpline L linesize None st1 of
             Inl e \<Rightarrow> Inl e
           | Inr (k, st2) \<Rightarrow> Inr (s1, st2)))"

text \<open>
  \<^verbatim>\<open>renderdumpline\<close> writes with \<^verbatim>\<open>wprintf\<close> and \<^verbatim>\<open>putwchar\<close>, so \<^verbatim>\<open>stdout\<close> is a wide
  stream there: it converts each wide character with the locale, from the initial
  conversion state on, and a character without a conversion is not written.
\<close>

fun stream_bytes :: "'m clocale \<Rightarrow> 'm \<Rightarrow> wchar list \<Rightarrow> byte list" where
  "stream_bytes L m [] = []"
| "stream_bytes L m (c # cs) =
     (case lc_wcrtomb L m c of
        (Some bs, m1) \<Rightarrow> bs @ stream_bytes L m1 cs
      | (None, m1) \<Rightarrow> stream_bytes L m1 cs)"

section \<open>The command line\<close>

text \<open>
  \<^verbatim>\<open>strtol(str, &p, 0)\<close> after ISO C: white space is skipped, a sign may follow, then
  the base is 16 behind \<^verbatim>\<open>0x\<close> or \<^verbatim>\<open>0X\<close> when a hexadecimal digit follows, 8 behind
  \<^verbatim>\<open>0\<close>, and 10 otherwise. The result is the value, clamped to the range of \<^verbatim>\<open>long\<close>
  (64 bits), the index of \<^verbatim>\<open>p\<close> in the string (0 when there is no digit), and
  whether \<^verbatim>\<open>errno\<close> was set to \<^verbatim>\<open>ERANGE\<close>.
\<close>

definition LONG_MAX :: int where
  "LONG_MAX = 2 ^ 63 - 1"

definition LONG_MIN :: int where
  "LONG_MIN = - (2 ^ 63)"

definition INT_MAX :: int where
  "INT_MAX = 2 ^ 31 - 1"

definition isspace :: "char \<Rightarrow> bool" where
  "isspace c \<longleftrightarrow> c = CHR '' '' \<or> (9 \<le> (of_char c :: nat) \<and> (of_char c :: nat) \<le> 13)"

definition digit_val :: "char \<Rightarrow> int" where
  "digit_val c =
     (let n = of_char c :: int
      in if 48 \<le> n \<and> n \<le> 57 then n - 48
         else if 97 \<le> n \<and> n \<le> 122 then n - 87
         else if 65 \<le> n \<and> n \<le> 90 then n - 55
         else 36)"

fun strtol_digits :: "int \<Rightarrow> int \<Rightarrow> string \<Rightarrow> int \<times> string" where
  "strtol_digits b acc [] = (acc, [])"
| "strtol_digits b acc (c # cs) =
     (if digit_val c < b then strtol_digits b (acc * b + digit_val c) cs else (acc, c # cs))"

definition strtol :: "string \<Rightarrow> int \<times> nat \<times> bool" where
  "strtol str =
     (let s0 = dropWhile isspace str;
          signed = (s0 \<noteq> [] \<and> (hd s0 = CHR ''-'' \<or> hd s0 = CHR ''+''));
          neg = (s0 \<noteq> [] \<and> hd s0 = CHR ''-'');
          s1 = (if signed then tl s0 else s0);
          hex = (case s1 of
                   a # b # c # _ \<Rightarrow> a = CHR ''0'' \<and> (b = CHR ''x'' \<or> b = CHR ''X'') \<and> digit_val c < 16
                 | _ \<Rightarrow> False);
          base = (if hex then 16 else if s1 \<noteq> [] \<and> hd s1 = CHR ''0'' then 8 else 10);
          s2 = (if hex then drop 2 s1 else s1)
      in case strtol_digits base 0 s2 of
           (v, rest) \<Rightarrow>
             if length rest = length s2 then (0, 0, False)
             else
               let r = (if neg then - v else v)
               in (if LONG_MAX < r then LONG_MAX else if r < LONG_MIN then LONG_MIN else r,
                   length str - length rest,
                   LONG_MAX < r \<or> r < LONG_MIN))"

fun decstr :: "nat \<Rightarrow> string" where
  "decstr n = (if n < 10 then [hexdigit n] else decstr (n div 10) @ [hexdigit (n mod 10)])"

declare decstr.simps [simp del]

text \<open>
  \<^verbatim>\<open>getn(str, name, maxval)\<close>, lines 124-132. \<open>None\<close> is the null pointer.
  \<^verbatim>\<open>
  if (!str || !*str) die("missing argument for %s", name);
  n = strtol(str, &p, 0);
  if (*p != '\0' || p == str ||
          (n == LONG_MAX && errno == ERANGE) || n < 0 || n > INT_MAX)
      die("invalid argument '%s' for %s", str, name);
  if (maxval && n > maxval)
      die("value for %s too large (maximum %d)", name, maxval);
  return n;
  \<close>
\<close>

definition getn :: "string option \<Rightarrow> string \<Rightarrow> int \<Rightarrow> error + int" where
  "getn str name maxval =
     (case str of
        None \<Rightarrow> Inl (Die (''missing argument for '' @ name))
      | Some s \<Rightarrow>
          if s = [] then Inl (Die (''missing argument for '' @ name))
          else
            (case strtol s of
               (n, p, erange) \<Rightarrow>
                 if p < length s \<or> p = 0 \<or> (n = LONG_MAX \<and> erange) \<or> n < 0 \<or> INT_MAX < n then
                   Inl (Die (''invalid argument '' @ [CHR 0x27] @ s @ [CHR 0x27] @ '' for '' @ name))
                 else if maxval \<noteq> 0 \<and> maxval < n then
                   Inl (Die (''value for '' @ name @ '' too large (maximum ''
                             @ decstr (nat maxval) @ '')''))
                 else Inr n))"

text \<open>
  The settings: the \<^verbatim>\<open>state\<close> and the globals \<^verbatim>\<open>linesize\<close> and \<^verbatim>\<open>acceptbadchars\<close>,
  with \<^verbatim>\<open>forward\<close>, the return value of \<^verbatim>\<open>parsecommandline\<close>. \<^verbatim>\<open>linesize\<close> is an
  \<^verbatim>\<open>int\<close> that only \<^verbatim>\<open>getn\<close> assigns, which returns no negative number; it is a
  natural number in the functions above.
\<close>

record settings =
  opt_state :: state
  opt_linesize :: nat
  opt_acceptbadchars :: bool
  opt_forward :: bool

text \<open>
  The loop over the options, lines 380-391. The list holds what the successive calls
  of \<^verbatim>\<open>getopt_long\<close> return, each with its \<^verbatim>\<open>optarg\<close>.
\<close>

fun parse_options :: "(char \<times> string option) list \<Rightarrow> settings \<Rightarrow> error + settings" where
  "parse_options [] c = Inr c"
| "parse_options ((ch, optarg) # rest) c =
     (if ch = CHR ''l'' then
        (case getn optarg ''limit'' 0 of
           Inl e \<Rightarrow> Inl e
         | Inr n \<Rightarrow> parse_options rest (c\<lparr>opt_state := (opt_state c)\<lparr>maxinputlen := n\<rparr>\<rparr>))
      else if ch = CHR ''s'' then
        (case getn optarg ''start'' 0 of
           Inl e \<Rightarrow> Inl e
         | Inr n \<Rightarrow> parse_options rest (c\<lparr>opt_state := (opt_state c)\<lparr>startoffset := n\<rparr>\<rparr>))
      else if ch = CHR ''c'' then
        (case getn optarg ''count'' 255 of
           Inl e \<Rightarrow> Inl e
         | Inr n \<Rightarrow> parse_options rest (c\<lparr>opt_linesize := nat n\<rparr>))
      else if ch = CHR ''i'' then parse_options rest (c\<lparr>opt_acceptbadchars := True\<rparr>)
      else if ch = CHR ''r'' then parse_options rest (c\<lparr>opt_forward := False\<rparr>)
      else if ch = CHR ''h'' then Inl ExitHelp
      else if ch = CHR ''v'' then Inl ExitVersion
      else Inl (Die ''Try --help for more information.''))"

text \<open>
  \<^verbatim>\<open>parsecommandline\<close>: \<open>files\<close> are the names behind the options (what opening each
  gives); without one the list is the single name \<^verbatim>\<open>-\<close>, the standard input.
\<close>

definition parsecommandline ::
  "(char \<times> string option) list \<Rightarrow> byte list option list \<Rightarrow> byte list \<Rightarrow> error + settings" where
  "parsecommandline opts files stdin =
     (case parse_options opts
             \<lparr>opt_state = \<lparr>startoffset = 0, maxinputlen = INT_MAX, filenames = [Some stdin],
                          currentfile = None, exitcode = 0\<rparr>,
              opt_linesize = 8, opt_acceptbadchars = False, opt_forward = True\<rparr> of
        Inl e \<Rightarrow> Inl e
      | Inr c \<Rightarrow>
          Inr (if files \<noteq> [] then c\<lparr>opt_state := (opt_state c)\<lparr>filenames := files\<rparr>\<rparr> else c))"

text \<open>
  \<^verbatim>\<open>main\<close>: the exit code and the bytes on the standard output, \<open>Inl\<close> when the program
  has stopped before, and \<open>None\<close> when \<^verbatim>\<open>dump\<close> does not return.
\<close>

definition main ::
  "'m clocale \<Rightarrow> (char \<times> string option) list \<Rightarrow> byte list option list \<Rightarrow> byte list
    \<Rightarrow> (error + int \<times> byte list) option" where
  "main L opts files stdin =
     (case parsecommandline opts files stdin of
        Inl e \<Rightarrow> Some (Inl e)
      | Inr c \<Rightarrow>
          if opt_forward c then
            (case dump L (opt_acceptbadchars c) (opt_linesize c) (opt_state c) of
               None \<Rightarrow> None
             | Some (s1, lines) \<Rightarrow>
                 Some (Inr (exitcode s1, stream_bytes L (lc_mbinit L) (concat lines))))
          else
            (case undump L (opt_linesize c) (opt_state c) \<lparr>mbs = lc_mbinit L, written = []\<rparr> of
               Inl e \<Rightarrow> Some (Inl e)
             | Inr (s1, st) \<Rightarrow> Some (Inr (exitcode s1, stdout_bytes st))))"

section \<open>A UTF-8 locale\<close>

text \<open>
  One instance of the locale, for running the functions on concrete input: UTF-8 after
  RFC 3629 with a conversion that has no state. The width table is a coarse one: -1
  for control characters and for values that are no Unicode scalar value, 0 for the
  null character and some combining and formatting characters, 2 for the East Asian
  wide blocks, and 1 for the rest.
\<close>

definition utf8_cont :: "byte \<Rightarrow> bool" where
  "utf8_cont b \<longleftrightarrow> b AND 0xC0 = 0x80"

definition utf8_mbrtowc :: "byte list \<Rightarrow> mbresult" where
  "utf8_mbrtowc bs =
     (case bs of
        [] \<Rightarrow> Ilseq
      | b0 # r \<Rightarrow>
          if b0 < 0x80 then Decoded (ucast b0) 1
          else if b0 AND 0xE0 = 0xC0 then
            (case r of
               b1 # _ \<Rightarrow>
                 let c = push_bit 6 (ucast (b0 AND 0x1F)) OR ucast (b1 AND 0x3F)
                 in if utf8_cont b1 \<and> 0x80 \<le> c then Decoded c 2 else Ilseq
             | _ \<Rightarrow> Ilseq)
          else if b0 AND 0xF0 = 0xE0 then
            (case r of
               b1 # b2 # _ \<Rightarrow>
                 let c = push_bit 12 (ucast (b0 AND 0x0F)) OR push_bit 6 (ucast (b1 AND 0x3F))
                         OR ucast (b2 AND 0x3F)
                 in if utf8_cont b1 \<and> utf8_cont b2 \<and> 0x800 \<le> c \<and> \<not> (0xD800 \<le> c \<and> c \<le> 0xDFFF)
                    then Decoded c 3 else Ilseq
             | _ \<Rightarrow> Ilseq)
          else if b0 AND 0xF8 = 0xF0 then
            (case r of
               b1 # b2 # b3 # _ \<Rightarrow>
                 let c = push_bit 18 (ucast (b0 AND 0x07)) OR push_bit 12 (ucast (b1 AND 0x3F))
                         OR push_bit 6 (ucast (b2 AND 0x3F)) OR ucast (b3 AND 0x3F)
                 in if utf8_cont b1 \<and> utf8_cont b2 \<and> utf8_cont b3 \<and> 0x10000 \<le> c \<and> c \<le> 0x10FFFF
                    then Decoded c 4 else Ilseq
             | _ \<Rightarrow> Ilseq)
          else Ilseq)"

definition utf8_wcrtomb :: "unit \<Rightarrow> wchar \<Rightarrow> byte list option \<times> unit" where
  "utf8_wcrtomb m c =
     (if c < 0x80 then (Some [ucast c], ())
      else if c < 0x800 then
        (Some [0xC0 OR ucast (drop_bit 6 c), 0x80 OR ucast (c AND 0x3F)], ())
      else if c < 0x10000 then
        (if 0xD800 \<le> c \<and> c \<le> 0xDFFF then (None, ())
         else (Some [0xE0 OR ucast (drop_bit 12 c), 0x80 OR ucast (drop_bit 6 c AND 0x3F),
                     0x80 OR ucast (c AND 0x3F)], ()))
      else if c \<le> 0x10FFFF then
        (Some [0xF0 OR ucast (drop_bit 18 c), 0x80 OR ucast (drop_bit 12 c AND 0x3F),
               0x80 OR ucast (drop_bit 6 c AND 0x3F), 0x80 OR ucast (c AND 0x3F)], ())
      else (None, ()))"

definition utf8_wcwidth :: "wchar \<Rightarrow> int" where
  "utf8_wcwidth c =
     (if c = 0 then 0
      else if c < 0x20 \<or> (0x7F \<le> c \<and> c < 0xA0) then - 1
      else if 0x10FFFF < c \<or> (0xD800 \<le> c \<and> c \<le> 0xDFFF) then - 1
      else if (0x300 \<le> c \<and> c \<le> 0x36F) \<or> (0x200B \<le> c \<and> c \<le> 0x200F) then 0
      else if (0x1100 \<le> c \<and> c \<le> 0x115F) \<or> (0x2E80 \<le> c \<and> c \<le> 0xA4CF) \<or>
              (0xAC00 \<le> c \<and> c \<le> 0xD7A3) \<or> (0xF900 \<le> c \<and> c \<le> 0xFAFF) \<or>
              (0xFE30 \<le> c \<and> c \<le> 0xFE6F) \<or> (0xFF00 \<le> c \<and> c \<le> 0xFF60) \<or>
              (0xFFE0 \<le> c \<and> c \<le> 0xFFE6) \<or> (0x20000 \<le> c \<and> c \<le> 0x3FFFD) then 2
      else 1)"

definition utf8_iswspace :: "wchar \<Rightarrow> bool" where
  "utf8_iswspace c \<longleftrightarrow>
     (0x09 \<le> c \<and> c \<le> 0x0D) \<or> c = 0x20 \<or> c = 0x1680 \<or>
     (0x2000 \<le> c \<and> c \<le> 0x2006) \<or> (0x2008 \<le> c \<and> c \<le> 0x200A) \<or>
     c = 0x2028 \<or> c = 0x2029 \<or> c = 0x205F \<or> c = 0x3000"

definition utf8 :: "unit clocale" where
  "utf8 = \<lparr>lc_mbrtowc = utf8_mbrtowc, lc_mbinit = (), lc_wcrtomb = utf8_wcrtomb,
            lc_wcwidth = utf8_wcwidth, lc_iswspace = utf8_iswspace\<rparr>"

section \<open>Notions of the specification\<close>

lemma nextwchar_consumes:
  "(ch, s1) = nextwchar L a s \<Longrightarrow> ch \<noteq> WEOF \<Longrightarrow> bytes_left s1 < bytes_left s"
  using nextwchar_bytes_left [of L a s ch s1] by simp

text \<open>
  The characters of the input: what successive calls of \<^verbatim>\<open>nextwchar\<close> deliver before
  the first \<^verbatim>\<open>WEOF\<close>.
\<close>

function wchars :: "'m clocale \<Rightarrow> bool \<Rightarrow> state \<Rightarrow> wchar list" where
  "wchars L a s =
     (case nextwchar L a s of
        (ch, s1) \<Rightarrow> if ch = WEOF then [] else ch # wchars L a s1)"
  by pat_completeness auto
termination
  by (relation "measure (\<lambda>(L, a, s). bytes_left s)") (auto dest: nextwchar_consumes)

declare wchars.simps [simp del]

text \<open>
  The values \<^verbatim>\<open>rawbyte | b\<close> that \<^verbatim>\<open>nextwchar\<close> returns for a byte \<open>b\<close> it could not
  convert.
\<close>

definition is_rawbyte :: "wchar \<Rightarrow> bool" where
  "is_rawbyte c \<longleftrightarrow> rawbyte \<le> c \<and> c \<le> rawbyte + 0xFF"


lemma nextwline_consumes:
  "(Some l, s1) = nextwline L n s \<Longrightarrow> bytes_left s1 < bytes_left s"
  using nextwline_bytes_left [of L n s "Some l" s1] by simp

text \<open>
  The lines of the input: what successive calls of \<^verbatim>\<open>nextwline\<close> deliver before the
  first call that returns 0.
\<close>

function wlines :: "'m clocale \<Rightarrow> nat \<Rightarrow> state \<Rightarrow> wchar list list" where
  "wlines L n s =
     (case nextwline L n s of
        (None, s1) \<Rightarrow> []
      | (Some l, s1) \<Rightarrow> l # wlines L n s1)"
  by pat_completeness auto
termination
  by (relation "measure (\<lambda>(L, n, s). bytes_left s)") (auto dest: nextwline_consumes)

declare wlines.simps [simp del]

text \<open>
  The fields of a dump line as the specification describes them: behind the address
  (the first run of characters that are no blank) and the blank that follows it, the
  line is cut into slots of six columns; a slot is a field when it matches
  \<^verbatim>\<open>%6X\<close> or, failing that, \<^verbatim>\<open> *%2X\<close>; the first slot that matches neither ends
  the fields, and there are at most \<open>linesize\<close> of them.
\<close>

fun count_fields :: "'m clocale \<Rightarrow> nat \<Rightarrow> wchar list \<Rightarrow> nat" where
  "count_fields L 0 fs = 0"
| "count_fields L (Suc n) fs =
     (case scan_hex L 6 fs of
        Some ch \<Rightarrow> Suc (count_fields L n (drop 6 fs))
      | None \<Rightarrow>
          (case scan_star_hex L fs of
             Some ch \<Rightarrow> Suc (count_fields L n (drop 6 fs))
           | None \<Rightarrow> 0))"

definition line_fields :: "'m clocale \<Rightarrow> nat \<Rightarrow> wchar list \<Rightarrow> nat" where
  "line_fields L linesize l0 =
     count_fields L linesize
       (drop 1 (dropWhile (\<lambda>c. c \<noteq> wc (CHR '' '')) (takeWhile (\<lambda>c. c \<noteq> 0) l0)))"

text \<open>
  The decode driver as the specification describes it. The budget is looked at before
  each line, never inside one: while it is positive the next line goes to the parser
  whole, and the budget goes down by the number of fields of the line. \<open>parsed_fields\<close>
  takes the numbers of fields of the lines of the input and gives those of the lines
  that are parsed; \<open>decode_lines\<close> gives the budget and the output behind the last
  parsed line.
\<close>

fun parsed_fields :: "int \<Rightarrow> nat list \<Rightarrow> nat list" where
  "parsed_fields m [] = []"
| "parsed_fields m (k # ks) = (if 0 < m then k # parsed_fields (m - int k) ks else [])"

fun decode_lines ::
  "'m clocale \<Rightarrow> nat \<Rightarrow> int \<Rightarrow> wchar list list \<Rightarrow> 'm outstate \<Rightarrow> error + int \<times> 'm outstate" where
  "decode_lines L linesize m [] st = Inr (m, st)"
| "decode_lines L linesize m (l # ls) st =
     (if 0 < m then
        (case translatedumpline L linesize (Some l) st of
           Inl e \<Rightarrow> Inl e
         | Inr (k, st1) \<Rightarrow> decode_lines L linesize (m - int k) ls st1)
      else Inr (m, st))"

text \<open>
  A run of \<^verbatim>\<open>chd -r -c 2 -l 1\<close>. The input is an empty line, the dump line of the two
  letters \<^verbatim>\<open>Hi\<close> at line width 2 and the dump line of \<^verbatim>\<open>!?\<close> behind them; the
  limit is one character.
\<close>

definition short_budget_input :: state where
  "short_budget_input =
     \<lparr>startoffset = 0, maxinputlen = 1,
      filenames = [Some ([0x0A] @ stream_bytes utf8 () (renderdumpline utf8 2 (wstr ''Hi'') 2 0) @
                         stream_bytes utf8 () (renderdumpline utf8 2 (wstr ''!?'') 2 2))],
      currentfile = None, exitcode = 0\<rparr>"

text \<open>Consecutive windows of \<open>k\<close> elements, the last one possibly shorter.\<close>

function windows :: "nat \<Rightarrow> 'a list \<Rightarrow> 'a list list" where
  "windows k xs = (if k = 0 \<or> xs = [] then [] else take k xs # windows k (drop k xs))"
  by pat_completeness auto
termination
  by (relation "measure (\<lambda>(k, xs). length xs)") auto

declare windows.simps [simp del]

text \<open>
  The lines of a dump of the characters \<open>xs\<close> that starts at position \<open>pos\<close>: one line
  for each window of \<open>k\<close> characters, at the position of its first character.
\<close>

function dump_lines :: "'m clocale \<Rightarrow> nat \<Rightarrow> int \<Rightarrow> wchar list \<Rightarrow> wchar list list" where
  "dump_lines L k pos xs =
     (if k = 0 \<or> xs = [] then []
      else renderdumpline L k (take k xs) (length (take k xs)) pos
           # dump_lines L k (pos + int k) (drop k xs))"
  by pat_completeness auto
termination
  by (relation "measure (\<lambda>(L, k, pos, xs). length xs)") auto

declare dump_lines.simps [simp del]

text \<open>
  A run of \<^verbatim>\<open>chd -s 2 -l 1\<close> on the five letters \<^verbatim>\<open>abcde\<close>.
\<close>

definition offset_input :: state where
  "offset_input =
     \<lparr>startoffset = 2, maxinputlen = 1, filenames = [Some (map of_char ''abcde'')],
      currentfile = None, exitcode = 0\<rparr>"

text \<open>
  The pipe \<^verbatim>\<open>chd OPTIONS | chd OPTIONS -r\<close> on the standard input: the bytes the second
  process writes.
\<close>

definition roundtrip ::
  "'m clocale \<Rightarrow> (char \<times> string option) list \<Rightarrow> byte list \<Rightarrow> (error + int \<times> byte list) option" where
  "roundtrip L opts input =
     (case main L opts [] input of
        Some (Inr (e, text)) \<Rightarrow> main L (opts @ [(CHR ''r'', None)]) [] text
      | r \<Rightarrow> r)"

declare dump_while.simps [code]

section \<open>Properties of the formatting\<close>

lemma length_hexstr_le: "n < 16 ^ Suc k \<Longrightarrow> length (hexstr n) \<le> Suc k"
proof (induction k arbitrary: n)
  case 0
  then show ?case by (simp add: hexstr.simps [of n])
next
  case (Suc k)
  show ?case
  proof (cases "n < 16")
    case True
    then show ?thesis by (simp add: hexstr.simps [of n])
  next
    case False
    from Suc.prems have "n div 16 < 16 ^ Suc k" by (simp add: less_mult_imp_div_less)
    then have "length (hexstr (n div 16)) \<le> Suc k" by (rule Suc.IH)
    with False show ?thesis by (simp add: hexstr.simps [of n])
  qed
qed

lemma length_hexstr_pos: "0 < length (hexstr n)"
  by (simp add: hexstr.simps [of n])

lemma length_padleft: "length (padleft w c s) = max w (length s)"
  by (simp add: padleft_def)

lemma length_fmt_02X: "n < 256 \<Longrightarrow> length (fmt_02X n) = 2"
  using length_hexstr_le [of n 1] by (simp add: fmt_02X_def length_padleft)

lemma length_fmt_6X: "n < 16777216 \<Longrightarrow> length (fmt_6X n) = 6"
  using length_hexstr_le [of n 5] by (simp add: fmt_6X_def length_padleft)

lemma length_fmt_08X: "n < 4294967296 \<Longrightarrow> length (fmt_08X n) = 8"
  using length_hexstr_le [of n 7] by (simp add: fmt_08X_def length_padleft)

lemma length_wstr [simp]: "length (wstr s) = length s"
  by (simp add: wstr_def)

section \<open>Tagged bytes\<close>

lemma bit_rawbyte: "bit rawbyte n \<longleftrightarrow> n = 28"
proof -
  have "rawbyte = push_bit 28 1" by (simp add: rawbyte_def)
  then have "bit rawbyte n \<longleftrightarrow> bit (push_bit 28 (1 :: wchar)) n" by (simp only:)
  also have "\<dots> \<longleftrightarrow> n = 28"
    unfolding bit_push_bit_iff bit_1_iff by auto
  finally show ?thesis .
qed

lemma bit_ff: "bit (0xFF :: wchar) n \<longleftrightarrow> n < 8"
proof -
  have "(0xFF :: wchar) = mask 8" by (simp add: mask_eq_exp_minus_1)
  then have "bit (0xFF :: wchar) n \<longleftrightarrow> bit (mask 8 :: wchar) n" by (simp only:)
  also have "\<dots> \<longleftrightarrow> n < 8"
    unfolding bit_mask_iff by auto
  finally show ?thesis .
qed

lemma bit_ucast_byte: "bit (ucast (b :: byte) :: wchar) n \<longleftrightarrow> n < 8 \<and> bit b n"
  by (auto simp: bit_ucast_iff dest: bit_imp_le_length)

lemma rawbyte_and_ucast: "rawbyte AND ucast (b :: byte) = 0"
  by (rule bit_word_eqI) (simp add: bit_and_iff bit_rawbyte bit_ucast_byte)

lemma rawbyte_or_plus: "rawbyte OR ucast (b :: byte) = rawbyte + ucast b"
  using word_plus_and_or [of rawbyte "ucast b"] by (simp add: rawbyte_and_ucast)

lemma uint_ucast_byte: "uint (ucast (b :: byte) :: wchar) = uint b"
  by (simp add: uint_up_ucast is_up)

lemma is_rawbyte_range: "is_rawbyte c \<longleftrightarrow> 268435456 \<le> uint c \<and> uint c \<le> 268435711"
  by (simp add: is_rawbyte_def rawbyte_def word_le_def)

lemma is_rawbyte_tagged: "is_rawbyte (rawbyte OR ucast (b :: byte))"
proof -
  have "uint b < 256" using uint_bounded [of b] by simp
  then have u: "uint (ucast b :: wchar) < 256" "0 \<le> uint (ucast b :: wchar)"
    by (simp_all add: uint_ucast_byte)
  have "uint (rawbyte + ucast b) = (268435456 + uint (ucast b :: wchar)) mod 2 ^ 32"
    by (simp add: uint_word_ariths rawbyte_def)
  also have "\<dots> = 268435456 + uint (ucast b :: wchar)"
    using u by simp
  finally show ?thesis
    using u by (simp add: is_rawbyte_range rawbyte_or_plus)
qed

lemma sint_small: "uint (c :: wchar) < 2147483648 \<Longrightarrow> sint c = uint c"
proof -
  assume "uint c < 2147483648"
  moreover have "- 2147483648 \<le> uint c"
    using uint_ge_0 [of c] by linarith
  ultimately show ?thesis
    using signed_take_bit_int_eq_self [of 31 "uint c"] by (simp add: sint_uint)
qed

lemma rawbyte_sint: "is_rawbyte c \<Longrightarrow> \<not> sint c < 256"
  by (simp add: is_rawbyte_range sint_small)

lemma rawbyte_bit: "is_rawbyte c \<Longrightarrow> c AND rawbyte \<noteq> 0"
proof
  assume r: "is_rawbyte c" and z: "c AND rawbyte = 0"
  from r have "268435456 \<le> uint c" "uint c < 2 * 268435456" by (simp_all add: is_rawbyte_range)
  then have "uint c div 268435456 = 1" by simp
  then have "bit (uint c) 28" by (simp add: bit_iff_odd)
  then have "bit c 28" by (simp add: bit_uint_iff)
  then have "bit (c AND rawbyte) 28" by (simp add: bit_and_iff bit_rawbyte)
  with z show False by simp
qed

lemma low_sint: "(c :: wchar) < 0x1000000 \<Longrightarrow> sint c < 256 \<longleftrightarrow> c < 256"
  by (simp add: word_less_def sint_small)

lemma and_ff: "unat ((c :: wchar) AND 0xFF) < 256"
proof -
  have "c AND 0xFF \<le> 0xFF" by (rule word_and_le1)
  then show ?thesis by (simp add: word_le_nat_alt)
qed

lemma and_ff_tagged: "(rawbyte OR ucast (b :: byte)) AND 0xFF = ucast b"
proof -
  have "(rawbyte OR ucast b) AND mask 8 = (ucast b :: wchar)"
    by (rule bit_word_eqI) (auto simp: bit_and_iff bit_or_iff bit_rawbyte bit_mask_iff bit_ucast_byte)
  then show ?thesis by (simp add: mask_eq_exp_minus_1)
qed

lemma unat_ucast_byte: "unat (ucast (b :: byte) :: wchar) = unat b"
  using uint_ucast_byte [of b] by (simp add: unat_eq_nat_uint del: nat_uint_eq)

section \<open>The hex fields\<close>

lemma hexstr_small: "n < 16 \<Longrightarrow> hexstr n = [hexdigit n]"
  by (simp add: hexstr.simps [of n])

lemma hexstr_large: "16 \<le> n \<Longrightarrow> hexstr n = hexstr (n div 16) @ [hexdigit (n mod 16)]"
  by (simp add: hexstr.simps [of n])

lemma hexdigit_0: "hexdigit 0 = CHR ''0''"
  by (simp add: hexdigit_def)

lemma fmt_02X_digits: "n < 256 \<Longrightarrow> fmt_02X n = [hexdigit (n div 16), hexdigit (n mod 16)]"
proof (cases "n < 16")
  case True
  then show ?thesis by (simp add: fmt_02X_def padleft_def hexstr_small hexdigit_0)
next
  case False
  assume "n < 256"
  then have "n div 16 < 16" by simp
  with False show ?thesis
    by (simp add: fmt_02X_def padleft_def hexstr_large hexstr_small)
qed

lemma low_not_raw: "(c :: wchar) < 0x1000000 \<Longrightarrow> c AND rawbyte = 0"
proof (rule bit_word_eqI)
  fix n
  assume c: "c < 0x1000000" and "n < LENGTH(32)"
  from c have "uint c < 16777216" by (simp add: word_less_def)
  then have "uint c div 268435456 = 0" by simp
  then have "\<not> bit (uint c) 28" by (simp add: bit_iff_odd)
  then have "\<not> bit c 28" by (simp add: bit_uint_iff)
  then show "bit (c AND rawbyte) n \<longleftrightarrow> bit (0 :: wchar) n"
    by (auto simp: bit_and_iff bit_rawbyte)
qed

lemma hexfield_low:
  "c < 256 \<Longrightarrow> hexfield c = wstr (''    '' @ [hexdigit (unat c div 16), hexdigit (unat c mod 16)])"
proof -
  assume c: "c < 256"
  then have "c < 0x1000000" by (simp add: word_less_def)
  with c have "sint c < 256" by (simp add: low_sint)
  moreover from c have "unat c < 256" by (simp add: word_less_nat_alt)
  ultimately show ?thesis by (simp add: hexfield_def fmt_02X_digits)
qed

lemma hexfield_raw:
  "is_rawbyte c \<Longrightarrow>
     hexfield c = wstr (''   *'' @ [hexdigit (unat (c AND 0xFF) div 16), hexdigit (unat (c AND 0xFF) mod 16)])"
  by (simp add: hexfield_def rawbyte_sint rawbyte_bit fmt_02X_digits and_ff)

lemma hexfield_other:
  "256 \<le> c \<Longrightarrow> c < 0x1000000 \<Longrightarrow> hexfield c = wstr (fmt_6X (unat c))"
proof -
  assume a: "256 \<le> c" and c: "c < 0x1000000"
  from a have "\<not> c < 256" by simp
  with c have "\<not> sint c < 256" by (simp add: low_sint)
  with c show ?thesis by (simp add: hexfield_def low_not_raw)
qed

lemma length_hexfield: "c < 0x1000000 \<or> is_rawbyte c \<Longrightarrow> length (hexfield c) = 6"
proof (cases "is_rawbyte c")
  case True
  then show ?thesis by (simp add: hexfield_raw)
next
  case False
  assume "c < 0x1000000 \<or> is_rawbyte c"
  with False have c: "c < 0x1000000" by simp
  show ?thesis
  proof (cases "c < 256")
    case True
    then show ?thesis by (simp add: hexfield_low)
  next
    case False
    then have "256 \<le> c" by simp
    moreover from c have "unat c < 16777216" by (simp add: word_less_nat_alt)
    ultimately show ?thesis using c by (simp add: hexfield_other length_fmt_6X)
  qed
qed

lemma length_fields:
  "\<forall>c\<in>set cs. c < 0x1000000 \<or> is_rawbyte c \<Longrightarrow> length (concat (map hexfield cs)) = 6 * length cs"
  by (induction cs) (simp_all add: length_hexfield)

lemma length_address: "length (address pos) = 10"
proof -
  have "nat (pos mod 2 ^ 32) < 4294967296"
    using pos_mod_bound [of "2 ^ 32" pos] by simp
  then show ?thesis by (simp add: address_def length_fmt_08X)
qed

lemma padding_eq:
  "count \<le> linesize \<Longrightarrow> padding linesize count = replicate (6 * (linesize - count) + 5) (wc (CHR '' ''))"
proof -
  assume "count \<le> linesize"
  then have "nat \<bar>6 * (int linesize - int count) + 5\<bar> = 6 * (linesize - count) + 5"
    by (simp add: of_nat_diff nat_add_distrib nat_mult_distrib)
  then show ?thesis by (simp add: padding_def)
qed

lemma dump_Hi:
  "main utf8 [] [] [0x48, 0x69, 0x21] =
     Some (Inr (0, map of_char (''00000000:     48    69    21'' @ replicate 35 (CHR '' '') @ ''H i ! '')
                   @ [0x0A]))"
  by code_simp



text \<open>
  Claim C5. On a line of \<open>count \<le> linesize\<close> characters, \<open>6 * (linesize - count) + 5\<close>
  blanks follow the last hex field, and the glyph section starts at column
  \<open>15 + 6 * linesize\<close>, whatever \<open>count\<close> is.
\<close>

theorem glyph_section_column:
  assumes "count \<le> linesize" and "count \<le> length buf"
    and "\<forall>c\<in>set (take count buf). c < 0x1000000 \<or> is_rawbyte c"
  shows "take (15 + 6 * linesize) (renderdumpline L linesize buf count pos) =
           address pos @ concat (map hexfield (take count buf))
           @ replicate (6 * (linesize - count) + 5) (wc (CHR '' '')) \<and>
         drop (15 + 6 * linesize) (renderdumpline L linesize buf count pos) =
           concat (map (glyph L) (take count buf)) @ [wc (CHR 0x0A)]"
proof -
  let ?head = "address pos @ concat (map hexfield (take count buf))
           @ replicate (6 * (linesize - count) + 5) (wc (CHR '' ''))"
  have "length (concat (map hexfield (take count buf))) = 6 * count"
    using length_fields [OF assms(3)] assms(2) by simp
  then have len: "length ?head = 15 + 6 * linesize"
    using assms(1) by (simp add: length_address)
  have "renderdumpline L linesize buf count pos =
      ?head @ (concat (map (glyph L) (take count buf)) @ [wc (CHR 0x0A)])"
    by (simp add: renderdumpline_def padding_eq [OF assms(1)])
  with len show ?thesis by simp
qed

text \<open>
  The line of \<^verbatim>\<open>Hi!\<close> and the line of its first letter alone, at line width 8: the
  glyphs start at column 63 on both.
\<close>

theorem glyph_section_column_witness:
  "(3 :: nat) \<le> 8 \<and> 3 \<le> length (wstr ''Hi!'') \<and>
   list_all (\<lambda>c. c < 0x1000000 \<or> is_rawbyte c) (take 3 (wstr ''Hi!'')) \<and>
   take 63 (renderdumpline utf8 8 (wstr ''Hi!'') 3 0) =
     wstr ''00000000:     48    69    21'' @ replicate 35 (wc (CHR '' '')) \<and>
   drop 63 (renderdumpline utf8 8 (wstr ''Hi!'') 3 0) = wstr ''H i ! '' @ [wc (CHR 0x0A)] \<and>
   take 63 (renderdumpline utf8 8 (wstr ''Hi!'') 1 0) =
     wstr ''00000000:     48'' @ replicate 47 (wc (CHR '' '')) \<and>
   drop 63 (renderdumpline utf8 8 (wstr ''Hi!'') 1 0) = wstr ''H '' @ [wc (CHR 0x0A)]"
proof -
  have h: "(3 :: nat) \<le> 8" "3 \<le> length (wstr ''Hi!'')" "(1 :: nat) \<le> 8" "1 \<le> length (wstr ''Hi!'')"
    by simp_all
  have u3: "\<forall>c\<in>set (take 3 (wstr ''Hi!'')). c < 0x1000000 \<or> is_rawbyte c"
    by (simp add: wstr_def wc_def)
  have u1: "\<forall>c\<in>set (take 1 (wstr ''Hi!'')). c < 0x1000000 \<or> is_rawbyte c"
    by (simp add: wstr_def wc_def)
  have e3: "address 0 @ concat (map hexfield (take 3 (wstr ''Hi!'')))
        @ replicate (6 * (8 - 3) + 5) (wc (CHR '' '')) =
      wstr ''00000000:     48    69    21'' @ replicate 35 (wc (CHR '' ''))"
    "concat (map (glyph utf8) (take 3 (wstr ''Hi!''))) = wstr ''H i ! ''"
    by code_simp+
  have e1: "address 0 @ concat (map hexfield (take 1 (wstr ''Hi!'')))
        @ replicate (6 * (8 - 1) + 5) (wc (CHR '' '')) =
      wstr ''00000000:     48'' @ replicate 47 (wc (CHR '' ''))"
    "concat (map (glyph utf8) (take 1 (wstr ''Hi!''))) = wstr ''H ''"
    by code_simp+
  from glyph_section_column [OF h(1) h(2) u3, of utf8 0]
    glyph_section_column [OF h(3) h(4) u1, of utf8 0] h u3 e3 e1
  show ?thesis by (simp add: list_all_iff)
qed

section \<open>The glyphs\<close>




section \<open>The parser\<close>

lemma translate_fields_count:
  "translate_fields L ls line p i st = Inr (k, st') \<Longrightarrow>
     i \<le> k \<and> k \<le> max i ls \<and> length (written st') = length (written st) + (k - i)"
proof (induction L ls line p i st arbitrary: k st' rule: translate_fields.induct)
  case (1 L ls line p i st)
  note eq = "1.prems" [unfolded translate_fields.simps [of L ls line p i st]]
  show ?case
  proof (cases "i < ls \<and> \<not> length line < p")
    case False
    with eq show ?thesis by (auto split: if_splits)
  next
    case True
    then have i: "i < ls" and p: "\<not> length line < p" and nn: "\<not> \<not> i < ls" by simp_all
    show ?thesis
    proof (cases "scan_hex L 6 (drop p line)")
      case sc: (Some ch)
      obtain r m1 where w1: "lc_wcrtomb L (mbs st) ch = (r, m1)" by (cases "lc_wcrtomb L (mbs st) ch")
      show ?thesis
      proof (cases r)
        case (Some bs)
        with eq i p sc w1
        have rec: "translate_fields L ls line (p + 6) (i + 1) (fwrite bs (st\<lparr>mbs := m1\<rparr>)) = Inr (k, st')"
          by simp
        from "1.IH"(3) [OF nn p sc w1 [symmetric] Some rec] i
        show ?thesis by (auto simp: fwrite_def)
      next
        case None
        obtain r2 m2 where w2: "lc_wcrtomb L m1 replacechar = (r2, m2)"
          by (cases "lc_wcrtomb L m1 replacechar")
        show ?thesis
        proof (cases r2)
          case None' : None
          with eq i p sc w1 None w2 show ?thesis by simp
        next
          case (Some bs)
          with eq i p sc w1 None w2
          have rec: "translate_fields L ls line (p + 6) (i + 1) (fwrite bs (st\<lparr>mbs := m2\<rparr>)) = Inr (k, st')"
            by simp
          from "1.IH"(2) [OF nn p sc w1 [symmetric] None w2 [symmetric] Some rec] i
          show ?thesis by (auto simp: fwrite_def)
        qed
      qed
    next
      case None
      show ?thesis
      proof (cases "scan_star_hex L (drop p line)")
        case None' : None
        with eq i p None show ?thesis by simp
      next
        case st: (Some ch)
        obtain r m1 where w1: "lc_wcrtomb L (mbs st) 0 = (r, m1)" by (cases "lc_wcrtomb L (mbs st) 0")
        show ?thesis
        proof (cases "r = None \<or> r = Some []")
          case True
          with eq i p None st w1 show ?thesis by auto
        next
          case False
          then obtain bs where r: "r = Some bs" and bs: "bs \<noteq> []" by auto
          with eq i p None st w1
          have rec: "translate_fields L ls line (p + 6) (i + 1)
                (fwrite (bs[length bs - 1 := ucast ch]) (st\<lparr>mbs := m1\<rparr>)) = Inr (k, st')"
            by simp
          from "1.IH"(1) [OF nn p None st w1 [symmetric] r bs rec] i
          show ?thesis by (auto simp: fwrite_def)
        qed
      qed
    qed
  qed
qed

lemma translatedumpline_count:
  "translatedumpline L ls (Some l) st = Inr (k, st') \<Longrightarrow>
     k \<le> ls \<and> length (written st') = length (written st) + k"
  using translate_fields_count [of L ls _ _ 0 st k st']
  by (auto simp: translatedumpline_def Let_def split: if_splits)

text \<open>
  The number that \<^verbatim>\<open>translatedumpline\<close> returns is the number of fields of the line.
\<close>

lemma scan_Nil: "scan_hex L w [] = None" "scan_star_hex L [] = None"
  by (simp_all add: scan_hex_def scan_star_hex_def)

lemma count_fields_Nil: "count_fields L n [] = 0"
  by (cases n) (simp_all add: scan_Nil)

lemma translate_fields_step:
  assumes "translate_fields L ls line p i st = Inr (k, st')" and "i < ls"
  shows "(case scan_hex L 6 (drop p line) of
            Some ch \<Rightarrow> \<exists>st1. translate_fields L ls line (p + 6) (i + 1) st1 = Inr (k, st')
          | None \<Rightarrow>
              (case scan_star_hex L (drop p line) of
                 Some ch \<Rightarrow> \<exists>st1. translate_fields L ls line (p + 6) (i + 1) st1 = Inr (k, st')
               | None \<Rightarrow> k = i))"
  using assms
  by (subst (asm) translate_fields.simps)
     (auto split: option.splits prod.splits if_splits)

lemma translate_fields_fields:
  "translate_fields L ls line p i st = Inr (k, st') \<Longrightarrow>
     k = i + count_fields L (ls - i) (drop p line)"
proof (induction "ls - i" arbitrary: p i st)
  case 0
  then show ?case by (simp add: translate_fields.simps [of L ls line p i st])
next
  case (Suc n)
  then have i: "i < ls" and n: "n = ls - (i + 1)" and e: "ls - i = Suc n" by simp_all
  have d: "drop 6 (drop p line) = drop (p + 6) line" by (simp add: add.commute)
  have ih: "translate_fields L ls line (p + 6) (i + 1) st1 = Inr (k, st') \<Longrightarrow>
      k = i + 1 + count_fields L n (drop (p + 6) line)" for st1
    using Suc.hyps(1) [OF n, of "p + 6" st1] n by simp
  from translate_fields_step [OF Suc.prems i] ih show ?case
    unfolding e count_fields.simps d
    by (auto split: option.splits)
qed

lemma translatedumpline_fields:
  assumes "translatedumpline L ls (Some l) st = Inr (k, st')"
  shows "k = line_fields L ls l"
proof -
  define l1 where "l1 = takeWhile (\<lambda>c. c \<noteq> 0) l"
  define p where "p = length (takeWhile (\<lambda>c. c \<noteq> wc (CHR '' '')) l1)"
  have dw: "dropWhile (\<lambda>c. c \<noteq> wc (CHR '' '')) l1 = drop p l1"
    unfolding p_def by (simp add: dropWhile_eq_drop)
  show ?thesis
  proof (cases "p = length l1")
    case True
    with assms show ?thesis
      by (simp add: translatedumpline_def Let_def line_fields_def dw count_fields_Nil
          flip: l1_def p_def)
  next
    case False
    with assms have "translate_fields L ls l1 (p + 1) 0 st = Inr (k, st')"
      by (simp add: translatedumpline_def Let_def flip: l1_def p_def)
    from translate_fields_fields [OF this] show ?thesis
      by (simp add: line_fields_def dw flip: l1_def)
  qed
qed

text \<open>
  Claim C7. A line without a blank (an empty line among them) has no separator behind
  the address: \<^verbatim>\<open>translatedumpline\<close> returns 0, writes nothing and leaves the
  conversion state as it is.
\<close>

theorem translatedumpline_no_separator:
  "wc (CHR '' '') \<notin> set l \<Longrightarrow> translatedumpline L ls (Some l) st = Inr (0, st)"
proof -
  assume "wc (CHR '' '') \<notin> set l"
  then have "wc (CHR '' '') \<notin> set (takeWhile (\<lambda>c. c \<noteq> 0) l)"
    by (auto dest: set_takeWhileD)
  then have "takeWhile (\<lambda>c. c \<noteq> wc (CHR '' '')) (takeWhile (\<lambda>c. c \<noteq> 0) l) = takeWhile (\<lambda>c. c \<noteq> 0) l"
    by (intro takeWhile_eq_all_conv [THEN iffD2]) auto
  then show ?thesis by (simp add: translatedumpline_def Let_def del: takeWhile_eq_all_conv)
qed

text \<open>The empty line, and a line that holds an address only.\<close>

theorem translatedumpline_no_separator_witness:
  "wc (CHR '' '') \<notin> set [] \<and>
   translatedumpline utf8 8 (Some []) \<lparr>mbs = (), written = [[0x61]]\<rparr> = Inr (0, \<lparr>mbs = (), written = [[0x61]]\<rparr>) \<and>
   wc (CHR '' '') \<notin> set (wstr ''00000000:'' @ [wc (CHR 0x0A)]) \<and>
   translatedumpline utf8 8 (Some (wstr ''00000000:'' @ [wc (CHR 0x0A)])) \<lparr>mbs = (), written = []\<rparr>
     = Inr (0, \<lparr>mbs = (), written = []\<rparr>)"
  using translatedumpline_no_separator [of "[]" utf8 8 "\<lparr>mbs = (), written = [[0x61]]\<rparr>"]
    translatedumpline_no_separator [of "wstr ''00000000:'' @ [wc (CHR 0x0A)]" utf8 8 "\<lparr>mbs = (), written = []\<rparr>"]
  by (simp add: wstr_def wc_def)

text \<open>
  Claim C6 fails on the code where it says that the padding and the glyph section of a
  short line are never consumed as data. The line is the dump line of the letter a at
  line width 8. Its only field is \<^verbatim>\<open>61\<close>; for each of the seven fields left over
  \<^verbatim>\<open>%6X\<close> skips the padding, which does not count against the width 6, and converts
  the glyph a as the hexadecimal number A. \<^verbatim>\<open>translatedumpline\<close> returns 8 and writes
  the letter and seven newline characters. (The other parts of the claim hold, see
  \<open>translatedumpline_count\<close>: the function returns the number of its writes, which is
  at most \<open>linesize\<close>.)
\<close>

theorem translatedumpline_reads_glyphs:
  "renderdumpline utf8 8 [wc (CHR ''a'')] 1 0 =
     wstr ''00000000:     61'' @ replicate 47 (wc (CHR '' '')) @ wstr ''a '' @ [wc (CHR 0x0A)] \<and>
   translatedumpline utf8 8 (Some (renderdumpline utf8 8 [wc (CHR ''a'')] 1 0)) \<lparr>mbs = (), written = []\<rparr> =
     Inr (8, \<lparr>mbs = (), written = [[0x61], [0x0A], [0x0A], [0x0A], [0x0A], [0x0A], [0x0A], [0x0A]]\<rparr>)"
  by code_simp

section \<open>The budget of \<^verbatim>\<open>undump\<close>\<close>

lemma nextwline_fields:
  "nextwline L n s = (r, s2) \<Longrightarrow> startoffset s2 = startoffset s \<and> maxinputlen s2 = maxinputlen s"
proof (induction L n s arbitrary: r s2 rule: nextwline.induct)
  case (1 L n s)
  obtain ok s1 where ii: "inputinit s = (ok, s1)" by (cases "inputinit s")
  note fl = inputinit_fields [OF ii]
  show ?case
  proof (cases "ok \<and> currentfile s1 \<noteq> None")
    case False
    with ii "1.prems" fl show ?thesis
      by (auto simp: nextwline.simps [of L n s] split: option.splits bool.splits)
  next
    case True
    then obtain f where ok: ok and Some: "currentfile s1 = Some f" by auto
    obtain x f1 where fg: "fgetws L n f = (x, f1)" by (cases "fgetws L n f")
    show ?thesis
    proof (cases x)
      case None
      with "1.prems" ok ii Some fg
      have rec: "nextwline L n (inputupdate (s1\<lparr>currentfile := Some f1\<rparr>)) = (r, s2)"
        by (simp add: nextwline.simps [of L n s])
      from "1.IH" [OF ii [symmetric] _ Some fg [symmetric] None rec] ok fl
        inputupdate_fields [of "s1\<lparr>currentfile := Some f1\<rparr>"]
      show ?thesis by auto
    next
      case (Some l)
      with "1.prems" ok ii \<open>currentfile s1 = Some f\<close> fg fl show ?thesis
        by (auto simp: nextwline.simps [of L n s])
    qed
  qed
qed

lemma undump_loop_budget:
  "undump_loop L ls s st = Inr (s', st') \<Longrightarrow>
     int (length (written st')) = int (length (written st)) + (maxinputlen s - maxinputlen s') \<and>
     maxinputlen s' \<le> maxinputlen s \<and>
     (0 < maxinputlen s \<longrightarrow> 1 - int ls \<le> maxinputlen s') \<and>
     (maxinputlen s \<le> 0 \<longrightarrow> maxinputlen s' = maxinputlen s)"
proof (induction L ls s st arbitrary: s' st' rule: undump_loop.induct)
  case (1 L ls s st)
  obtain r s1 where nl: "nextwline L (ls * 8 + 20) s = (r, s1)"
    by (cases "nextwline L (ls * 8 + 20) s")
  from nextwline_fields [OF nl] have m: "maxinputlen s1 = maxinputlen s" by simp
  note eq = "1.prems" [unfolded undump_loop.simps [of L ls s st]]
  show ?case
  proof (cases r)
    case None
    with eq nl m show ?thesis by simp
  next
    case (Some line)
    show ?thesis
    proof (cases "0 < maxinputlen s1")
      case False
      with eq nl m Some show ?thesis by simp
    next
      case True
      with eq nl Some obtain k st1 where
        td: "translatedumpline L ls (Some line) st = Inr (k, st1)" and
        rec: "undump_loop L ls (s1\<lparr>maxinputlen := maxinputlen s1 - int k\<rparr>) st1 = Inr (s', st')"
        by (auto split: sum.splits)
      from translatedumpline_count [OF td] have k: "k \<le> ls"
        and w: "length (written st1) = length (written st) + k" by simp_all
      from "1.IH" [OF nl [symmetric] Some True td refl rec] have
        "int (length (written st')) = int (length (written st1)) + (maxinputlen s1 - int k - maxinputlen s')"
        "maxinputlen s' \<le> maxinputlen s1 - int k"
        "0 < maxinputlen s1 - int k \<longrightarrow> 1 - int ls \<le> maxinputlen s'"
        "maxinputlen s1 - int k \<le> 0 \<longrightarrow> maxinputlen s' = maxinputlen s1 - int k"
        by simp_all
      with k w m True show ?thesis by auto
    qed
  qed
qed

lemma nextwline_maxinputlen:
  "nextwline L n (s\<lparr>maxinputlen := m\<rparr>) =
     (case nextwline L n s of (r, s2) \<Rightarrow> (r, s2\<lparr>maxinputlen := m\<rparr>))"
proof (induction L n s rule: nextwline.induct)
  case (1 L n s)
  obtain ok s1 where ii: "inputinit s = (ok, s1)" by (cases "inputinit s")
  then have ii': "inputinit (s\<lparr>maxinputlen := m\<rparr>) = (ok, s1\<lparr>maxinputlen := m\<rparr>)"
    by (simp add: inputinit_maxinputlen)
  show ?case
  proof (cases "ok \<and> currentfile s1 \<noteq> None")
    case False
    with ii ii' show ?thesis
      by (auto simp: nextwline.simps [of L n s] nextwline.simps [of L n "s\<lparr>maxinputlen := m\<rparr>"]
          split: option.splits bool.splits)
  next
    case True
    then obtain f where ok: ok and Some: "currentfile s1 = Some f" by auto
    obtain x f1 where fg: "fgetws L n f = (x, f1)" by (cases "fgetws L n f")
    show ?thesis
    proof (cases x)
      case None
      from "1.IH" [OF ii [symmetric] _ Some fg [symmetric] None] ok
      have "nextwline L n ((inputupdate (s1\<lparr>currentfile := Some f1\<rparr>))\<lparr>maxinputlen := m\<rparr>) =
        (case nextwline L n (inputupdate (s1\<lparr>currentfile := Some f1\<rparr>)) of
           (r, s2) \<Rightarrow> (r, s2\<lparr>maxinputlen := m\<rparr>))"
        by auto
      with None ok ii ii' Some fg show ?thesis
        by (auto simp: nextwline.simps [of L n s] nextwline.simps [of L n "s\<lparr>maxinputlen := m\<rparr>"]
            inputupdate_maxinputlen maxinputlen_currentfile_swap)
    next
      case x: (Some l)
      with ok ii ii' Some fg show ?thesis
        by (auto simp: nextwline.simps [of L n s] nextwline.simps [of L n "s\<lparr>maxinputlen := m\<rparr>"]
            maxinputlen_currentfile_swap)
    qed
  qed
qed

lemma wlines_maxinputlen: "wlines L n (s\<lparr>maxinputlen := m\<rparr>) = wlines L n s"
proof (induction L n s rule: wlines.induct)
  case (1 L n s)
  obtain r s1 where nl: "nextwline L n s = (r, s1)" by (cases "nextwline L n s")
  then have nl': "nextwline L n (s\<lparr>maxinputlen := m\<rparr>) = (r, s1\<lparr>maxinputlen := m\<rparr>)"
    by (simp add: nextwline_maxinputlen)
  show ?case
  proof (cases r)
    case None
    with nl nl' show ?thesis
      by (simp add: wlines.simps [of L n s] wlines.simps [of L n "s\<lparr>maxinputlen := m\<rparr>"])
  next
    case (Some l)
    with "1.IH" [OF nl [symmetric] Some] nl nl' show ?thesis
      by (simp add: wlines.simps [of L n s] wlines.simps [of L n "s\<lparr>maxinputlen := m\<rparr>"])
  qed
qed

lemma undump_loop_decode_lines:
  "(case undump_loop L ls s st of Inl e \<Rightarrow> Inl e | Inr (s1, st1) \<Rightarrow> Inr (maxinputlen s1, st1)) =
     decode_lines L ls (maxinputlen s) (wlines L (ls * 8 + 20) s) st"
proof (induction L ls s st rule: undump_loop.induct)
  case (1 L ls s st)
  obtain r s1 where nl: "nextwline L (ls * 8 + 20) s = (r, s1)"
    by (cases "nextwline L (ls * 8 + 20) s")
  from nextwline_fields [OF nl] have m: "maxinputlen s1 = maxinputlen s" by simp
  show ?case
  proof (cases r)
    case None
    with nl m show ?thesis
      by (simp add: undump_loop.simps [of L ls s st] wlines.simps [of L "ls * 8 + 20" s])
  next
    case (Some line)
    show ?thesis
    proof (cases "0 < maxinputlen s1")
      case False
      with nl m Some show ?thesis
        by (simp add: undump_loop.simps [of L ls s st] wlines.simps [of L "ls * 8 + 20" s])
    next
      case True
      show ?thesis
      proof (cases "translatedumpline L ls (Some line) st")
        case (Inl e)
        with nl m Some True show ?thesis
          by (simp add: undump_loop.simps [of L ls s st] wlines.simps [of L "ls * 8 + 20" s])
      next
        case (Inr x)
        then obtain k st1 where td: "translatedumpline L ls (Some line) st = Inr (k, st1)"
          by (cases x) simp
        from "1.IH" [OF nl [symmetric] Some True td refl]
        have "(case undump_loop L ls (s1\<lparr>maxinputlen := maxinputlen s1 - int k\<rparr>) st1 of
                 Inl e \<Rightarrow> Inl e | Inr (s2, st2) \<Rightarrow> Inr (maxinputlen s2, st2)) =
              decode_lines L ls (maxinputlen s - int k) (wlines L (ls * 8 + 20) s1) st1"
          by (simp add: wlines_maxinputlen m)
        with nl m Some True td show ?thesis
          by (simp add: undump_loop.simps [of L ls s st] wlines.simps [of L "ls * 8 + 20" s])
      qed
    qed
  qed
qed

lemma decode_lines_fields:
  "decode_lines L ls m lines st = Inr (m', st') \<Longrightarrow>
     length (written st') = length (written st) + sum_list (parsed_fields m (map (line_fields L ls) lines))"
proof (induction lines arbitrary: m st)
  case Nil
  then show ?case by simp
next
  case (Cons l lines)
  show ?case
  proof (cases "0 < m")
    case False
    with Cons.prems show ?thesis by simp
  next
    case True
    with Cons.prems obtain k st1 where
      td: "translatedumpline L ls (Some l) st = Inr (k, st1)" and
      rec: "decode_lines L ls (m - int k) lines st1 = Inr (m', st')"
      by (auto split: sum.splits)
    from translatedumpline_fields [OF td] translatedumpline_count [OF td] Cons.IH [OF rec] True
    show ?thesis by simp
  qed
qed

text \<open>
  Claim C10. \<^verbatim>\<open>undump\<close> tests the budget between lines only. When it returns, with a
  budget that was not negative and a line width of at least 1, then
  \<^item> the loop has ended and the call \<^verbatim>\<open>translatedumpline(NULL)\<close> has followed it;
  \<^item> the loop has done what \<open>decode_lines\<close> does on the lines of the input: each line
    that comes up while the budget is positive is parsed, whole, and the loop ends at
    the first line that comes up with no budget left, or with the input;
  \<^item> the number of characters written by the loop is the number of all fields of the
    lines parsed, whatever the budget was; it is the amount the budget went down by,
    and it is at most \<open>maxinputlen + linesize - 1\<close>.

  (\<^verbatim>\<open>undump\<close> always comes to an end: it is a total function here, and stops with an
  error only where the C code leaves defined behaviour.)
\<close>

theorem undump_budget:
  assumes "undump L ls s st = Inr (s', st')" and "0 \<le> maxinputlen s" and "0 < ls"
  shows "\<exists>st1. undump_loop L ls s st = Inr (s', st1) \<and>
           translatedumpline L ls None st1 = Inr (0, st') \<and>
           decode_lines L ls (maxinputlen s) (wlines L (ls * 8 + 20) s) st = Inr (maxinputlen s', st1) \<and>
           length (written st1) = length (written st) +
             sum_list (parsed_fields (maxinputlen s) (map (line_fields L ls) (wlines L (ls * 8 + 20) s))) \<and>
           int (length (written st1)) - int (length (written st)) = maxinputlen s - maxinputlen s' \<and>
           maxinputlen s - maxinputlen s' \<le> maxinputlen s + int ls - 1"
proof -
  from assms(1) obtain st1 k where
    loop: "undump_loop L ls s st = Inr (s', st1)" and
    fl: "translatedumpline L ls None st1 = Inr (k, st')"
    by (auto simp: undump_def split: sum.splits)
  from fl have k: "k = 0"
    by (auto simp: translatedumpline_def split: prod.splits option.splits if_splits)
  from undump_loop_decode_lines [of L ls s st] loop
  have dl: "decode_lines L ls (maxinputlen s) (wlines L (ls * 8 + 20) s) st = Inr (maxinputlen s', st1)"
    by simp
  note decode_lines_fields [OF dl]
  with undump_loop_budget [OF loop] loop fl k dl assms(2,3) show ?thesis
    by (intro exI [of _ st1]) auto
qed

lemma short_budget_run:
  "undump utf8 2 short_budget_input \<lparr>mbs = (), written = []\<rparr> =
     Inr (short_budget_input\<lparr>maxinputlen := - 1, currentfile := Some \<lparr>unread = [], ferr = False\<rparr>\<rparr>,
          \<lparr>mbs = (), written = [[0x48], [0x69], []]\<rparr>)"
  by code_simp

lemma short_budget_lines:
  "wlines utf8 (2 * 8 + 20) short_budget_input =
     [[wc (CHR 0x0A)],
      wstr ''00000000:     48    69     H i '' @ [wc (CHR 0x0A)],
      wstr ''00000002:     21    3F     ! ? '' @ [wc (CHR 0x0A)]]"
  by code_simp

lemma short_budget_fields:
  "map (line_fields utf8 2) (wlines utf8 (2 * 8 + 20) short_budget_input) = [0, 2, 2]"
  by code_simp

text \<open>
  The empty line has no field and leaves the limit at 1, so the line of \<^verbatim>\<open>Hi\<close> is
  parsed and both its fields are written, one more than the limit: the bound
  \<open>1 + 2 - 1\<close> is reached. The third line is read and not parsed.
\<close>

theorem undump_budget_witness:
  "undump utf8 2 short_budget_input \<lparr>mbs = (), written = []\<rparr> =
     Inr (short_budget_input\<lparr>maxinputlen := - 1, currentfile := Some \<lparr>unread = [], ferr = False\<rparr>\<rparr>,
          \<lparr>mbs = (), written = [[0x48], [0x69], []]\<rparr>) \<and>
   maxinputlen short_budget_input = 1 \<and> (0 :: nat) < 2 \<and>
   wlines utf8 (2 * 8 + 20) short_budget_input =
     [[wc (CHR 0x0A)],
      wstr ''00000000:     48    69     H i '' @ [wc (CHR 0x0A)],
      wstr ''00000002:     21    3F     ! ? '' @ [wc (CHR 0x0A)]] \<and>
   map (line_fields utf8 2) (wlines utf8 (2 * 8 + 20) short_budget_input) = [0, 2, 2] \<and>
   parsed_fields 1 [0, 2, 2] = [0, 2] \<and>
   undump_loop utf8 2 short_budget_input \<lparr>mbs = (), written = []\<rparr> =
     Inr (short_budget_input\<lparr>maxinputlen := - 1, currentfile := Some \<lparr>unread = [], ferr = False\<rparr>\<rparr>,
          \<lparr>mbs = (), written = [[0x48], [0x69]]\<rparr>) \<and>
   translatedumpline utf8 2 None \<lparr>mbs = (), written = [[0x48], [0x69]]\<rparr> =
     Inr (0, \<lparr>mbs = (), written = [[0x48], [0x69], []]\<rparr>) \<and>
   decode_lines utf8 2 1 (wlines utf8 (2 * 8 + 20) short_budget_input) \<lparr>mbs = (), written = []\<rparr> =
     Inr (- 1, \<lparr>mbs = (), written = [[0x48], [0x69]]\<rparr>) \<and>
   length [[0x48 :: byte], [0x69]] = 0 + sum_list [0, 2] \<and>
   (1 :: int) < int (length [[0x48 :: byte], [0x69]]) \<and>
   int (length [[0x48 :: byte], [0x69]]) = 1 + int 2 - 1"
proof -
  have m: "maxinputlen short_budget_input = 1"
    by (simp add: short_budget_input_def)
  then have m0: "0 \<le> maxinputlen short_budget_input" by simp
  have l: "undump_loop utf8 2 short_budget_input \<lparr>mbs = (), written = []\<rparr> =
     Inr (short_budget_input\<lparr>maxinputlen := - 1, currentfile := Some \<lparr>unread = [], ferr = False\<rparr>\<rparr>,
          \<lparr>mbs = (), written = [[0x48], [0x69]]\<rparr>)"
    by code_simp
  have p: "parsed_fields 1 [0, 2, 2] = [0, 2]" by simp
  from undump_budget [OF short_budget_run m0] obtain st1 where
    a: "undump_loop utf8 2 short_budget_input \<lparr>mbs = (), written = []\<rparr> =
          Inr (short_budget_input\<lparr>maxinputlen := - 1, currentfile := Some \<lparr>unread = [], ferr = False\<rparr>\<rparr>, st1)" and
    b: "translatedumpline utf8 2 None st1 = Inr (0, \<lparr>mbs = (), written = [[0x48], [0x69], []]\<rparr>)" and
    c: "decode_lines utf8 2 (maxinputlen short_budget_input) (wlines utf8 (2 * 8 + 20) short_budget_input) \<lparr>mbs = (), written = []\<rparr> =
          Inr (maxinputlen (short_budget_input\<lparr>maxinputlen := - 1, currentfile := Some \<lparr>unread = [], ferr = False\<rparr>\<rparr>), st1)"
    by auto
  from a l have st1: "st1 = \<lparr>mbs = (), written = [[0x48], [0x69]]\<rparr>" by simp
  from b c show ?thesis
    unfolding st1 m
    using short_budget_run short_budget_lines short_budget_fields l p m by simp
qed

section \<open>The numeric options\<close>

lemma strtol_end: "fst (snd (strtol s)) \<le> length s"
  by (simp add: strtol_def Let_def split: prod.splits)

lemma getn_Inr:
  "getn str name maxval = Inr n \<Longrightarrow>
     (\<exists>s. str = Some s \<and> s \<noteq> [] \<and> fst (strtol s) = n \<and> fst (snd (strtol s)) = length s) \<and>
     0 \<le> n \<and> n \<le> INT_MAX \<and> (maxval \<noteq> 0 \<longrightarrow> n \<le> maxval)"
proof -
  assume g: "getn str name maxval = Inr n"
  then obtain s where s: "str = Some s" "s \<noteq> []"
    by (auto simp: getn_def split: option.splits if_splits)
  obtain v p r where t: "strtol s = (v, p, r)" by (cases "strtol s") auto
  from strtol_end [of s] t have "p \<le> length s" by simp
  with g s t show ?thesis
    by (auto simp: getn_def split: if_splits)
qed

lemma getn_Inl: "getn str name maxval = Inl e \<Longrightarrow> \<exists>msg. e = Die msg"
  by (auto simp: getn_def split: option.splits if_splits prod.splits)

lemma parse_options_linesize:
  "parse_options opts c = Inr c' \<Longrightarrow> opt_linesize c \<le> 255 \<Longrightarrow> opt_linesize c' \<le> 255"
proof (induction opts arbitrary: c)
  case Nil
  then show ?case by simp
next
  case (Cons a opts)
  obtain ch optarg where a: "a = (ch, optarg)" by (cases a)
  from Cons.prems(1) [unfolded a] show ?case
    by (auto split: if_splits sum.splits dest!: Cons.IH getn_Inr simp: Cons.prems(2))
qed

lemma parse_options_nonneg:
  "parse_options opts c = Inr c' \<Longrightarrow>
     0 \<le> startoffset (opt_state c) \<and> 0 \<le> maxinputlen (opt_state c) \<Longrightarrow>
     0 \<le> startoffset (opt_state c') \<and> 0 \<le> maxinputlen (opt_state c')"
proof (induction opts arbitrary: c)
  case Nil
  then show ?case by simp
next
  case (Cons a opts)
  obtain ch optarg where a: "a = (ch, optarg)" by (cases a)
  from Cons.prems(1) [unfolded a] Cons.prems(2) show ?case
    by (auto split: if_splits sum.splits dest!: Cons.IH getn_Inr)
qed

text \<open>
  A string that \<^verbatim>\<open>getn\<close> accepts is not empty, \<^verbatim>\<open>strtol\<close> converts all of it, and the
  value is not negative, at most \<^verbatim>\<open>INT_MAX\<close> and at most the maximum when there is
  one; any other string ends the program through \<^verbatim>\<open>die\<close>. When \<^verbatim>\<open>parsecommandline\<close>
  stops, \<^verbatim>\<open>main\<close> stops with it, before \<^verbatim>\<open>dump\<close> or \<^verbatim>\<open>undump\<close> read or write
  anything. Every accepted line width is at most 255, and it is 8 without an option.
\<close>

lemma numeric_options:
  "(getn str name maxval = Inr n \<longrightarrow>
      (\<exists>s. str = Some s \<and> s \<noteq> [] \<and> fst (strtol s) = n \<and> fst (snd (strtol s)) = length s) \<and>
      0 \<le> n \<and> n \<le> INT_MAX \<and> (maxval \<noteq> 0 \<longrightarrow> n \<le> maxval)) \<and>
   (getn str name maxval = Inl e \<longrightarrow> (\<exists>msg. e = Die msg)) \<and>
   (parsecommandline opts files input = Inl e \<longrightarrow> main L opts files input = Some (Inl e)) \<and>
   (parsecommandline opts files input = Inr c \<longrightarrow>
      opt_linesize c \<le> 255 \<and> 0 \<le> startoffset (opt_state c) \<and> 0 \<le> maxinputlen (opt_state c)) \<and>
   (parsecommandline [] files input = Inr c \<longrightarrow> opt_linesize c = 8)"
proof -
  have a: "opt_linesize c \<le> 255 \<and> 0 \<le> startoffset (opt_state c) \<and> 0 \<le> maxinputlen (opt_state c)"
    if p: "parsecommandline opts files input = Inr c"
  proof -
    let ?c0 = "\<lparr>opt_state = \<lparr>startoffset = 0, maxinputlen = INT_MAX, filenames = [Some input],
                          currentfile = None, exitcode = 0\<rparr>,
              opt_linesize = 8, opt_acceptbadchars = False, opt_forward = True\<rparr>"
    from p obtain c1 where c1: "parse_options opts ?c0 = Inr c1"
      and c: "c = (if files \<noteq> [] then c1\<lparr>opt_state := (opt_state c1)\<lparr>filenames := files\<rparr>\<rparr> else c1)"
      by (auto simp: parsecommandline_def split: sum.splits)
    from parse_options_linesize [OF c1] parse_options_nonneg [OF c1] c show ?thesis
      by (simp add: INT_MAX_def)
  qed
  have b: "parsecommandline [] files input = Inr c \<Longrightarrow> opt_linesize c = 8"
    by (auto simp: parsecommandline_def split: if_splits)
  have d: "parsecommandline opts files input = Inl e \<Longrightarrow> main L opts files input = Some (Inl e)"
    by (simp add: main_def)
  from a b d getn_Inr [of str name maxval n] getn_Inl [of str name maxval e]
  show ?thesis by blast
qed

text \<open>With the line width 0 the outer loop of \<^verbatim>\<open>dump\<close> makes no progress.\<close>

lemma dump_fill_linesize_0: "dump_fill L a 0 (0, ch, line, s) = (0, ch, line, s)"
  by (simp add: dump_fill.simps [of L a 0 0 ch line s])

lemma dump_while_Some_linesize:
  assumes "dump_while L a ls x = Some y"
  shows "ls = 0 \<longrightarrow> (case x of (ch, pos, line, s, out) \<Rightarrow> ch \<noteq> WEOF \<and> 0 < maxinputlen s) \<longrightarrow> False"
proof (rule dump_while.raw_induct
    [where xa = "(((L, a), ls), x)" and y = y
      and P = "\<lambda>L a ls x y. ls = 0 \<longrightarrow>
          (case x of (ch, pos, line, s, out) \<Rightarrow> ch \<noteq> WEOF \<and> 0 < maxinputlen s) \<longrightarrow> False",
      unfolded prod.case], goal_cases)
  case (1 f L a ls x r)
  show ?case
  proof (intro impI)
    assume z: "ls = 0" and c: "case x of (ch, pos, line, s, out) \<Rightarrow> ch \<noteq> WEOF \<and> 0 < maxinputlen s"
    obtain ch pos line s out where x: "x = (ch, pos, line, s, out)" by (cases x) auto
    from 1(2) z c have "f L a 0 (ch, pos, line, s, out) = Some r"
      unfolding x by (simp add: dump_fill_linesize_0)
    from 1(1) [OF this] c show False unfolding x by simp
  qed
next
  case 2
  from assms show ?case .
qed

lemma dump_while_linesize_0:
  "ch \<noteq> WEOF \<Longrightarrow> 0 < maxinputlen s \<Longrightarrow> dump_while L a 0 (ch, pos, line, s, out) = None"
  using dump_while_Some_linesize [of L a 0 "(ch, pos, line, s, out)"]
  by (cases "dump_while L a 0 (ch, pos, line, s, out)") auto

lemma dump_linesize_0:
  "startoffset s \<le> 0 \<Longrightarrow> 0 < maxinputlen s \<Longrightarrow> dump L a 0 s = None"
  by (simp add: dump_def dump_skip.simps [of L a 0 0 s] dump_while_linesize_0 WEOF_def)

text \<open>
  Claim C9 fails on the code where it says that every accepted line width is positive.
  \<^verbatim>\<open>getn\<close> rejects negative numbers only, so \<^verbatim>\<open>chd --count=0\<close> passes
  \<^verbatim>\<open>parsecommandline\<close> with \<^verbatim>\<open>linesize\<close> 0, and then \<^verbatim>\<open>dump\<close> never returns: each
  round of its outer loop reads nothing and changes nothing.
\<close>

theorem count_zero_hangs:
  "parsecommandline [(CHR ''c'', Some ''0'')] [] [0x61] =
     Inr \<lparr>opt_state = \<lparr>startoffset = 0, maxinputlen = 2147483647, filenames = [Some [0x61]],
                       currentfile = None, exitcode = 0\<rparr>,
          opt_linesize = 0, opt_acceptbadchars = False, opt_forward = True\<rparr> \<and>
   main utf8 [(CHR ''c'', Some ''0'')] [] [0x61] = None"
proof -
  have p: "parsecommandline [(CHR ''c'', Some ''0'')] [] [0x61] =
     Inr \<lparr>opt_state = \<lparr>startoffset = 0, maxinputlen = 2147483647, filenames = [Some [0x61]],
                       currentfile = None, exitcode = 0\<rparr>,
          opt_linesize = 0, opt_acceptbadchars = False, opt_forward = True\<rparr>"
    by code_simp
  have "dump utf8 False 0 \<lparr>startoffset = 0, maxinputlen = 2147483647, filenames = [Some [0x61]],
                       currentfile = None, exitcode = 0\<rparr> = None"
    by (rule dump_linesize_0) simp_all
  with p show ?thesis by (simp add: main_def)
qed

section \<open>The windows of \<^verbatim>\<open>dump\<close>\<close>

lemma WEOF_notin_wchars: "WEOF \<notin> set (wchars L a s)"
proof (induction L a s rule: wchars.induct)
  case (1 L a s)
  obtain ch s1 where n: "nextwchar L a s = (ch, s1)" by (cases "nextwchar L a s")
  show ?case
  proof (cases "ch = WEOF")
    case True
    with n show ?thesis by (simp add: wchars.simps [of L a s])
  next
    case False
    with "1.IH" [OF n [symmetric] False] n show ?thesis
      by (auto simp: wchars.simps [of L a s])
  qed
qed

lemma wchars_maxinputlen: "wchars L a (s\<lparr>maxinputlen := m\<rparr>) = wchars L a s"
proof (induction L a s rule: wchars.induct)
  case (1 L a s)
  obtain ch s1 where n: "nextwchar L a s = (ch, s1)" by (cases "nextwchar L a s")
  then have n': "nextwchar L a (s\<lparr>maxinputlen := m\<rparr>) = (ch, s1\<lparr>maxinputlen := m\<rparr>)"
    by (simp add: nextwchar_maxinputlen)
  show ?case
  proof (cases "ch = WEOF")
    case True
    with n n' show ?thesis
      by (simp add: wchars.simps [of L a s] wchars.simps [of L a "s\<lparr>maxinputlen := m\<rparr>"])
  next
    case False
    with "1.IH" [OF n [symmetric] False] n n' show ?thesis
      by (simp add: wchars.simps [of L a s] wchars.simps [of L a "s\<lparr>maxinputlen := m\<rparr>"])
  qed
qed

lemma wchars_WEOF: "nextwchar L a s = (WEOF, s1) \<Longrightarrow> wchars L a s = []"
  by (simp add: wchars.simps [of L a s])

lemma wchars_Cons: "nextwchar L a s = (ch, s1) \<Longrightarrow> ch \<noteq> WEOF \<Longrightarrow> wchars L a s = ch # wchars L a s1"
  by (simp add: wchars.simps [of L a s])

lemma dump_skip_chars:
  "ch \<noteq> WEOF \<Longrightarrow> dump_skip L a (ch, pos, s) = (ch', pos', s') \<Longrightarrow>
     (if nat (startoffset s - pos) \<le> length (wchars L a s)
      then ch' \<noteq> WEOF \<and> pos' = max pos (startoffset s) \<and>
           wchars L a s' = drop (nat (startoffset s - pos)) (wchars L a s) \<and>
           maxinputlen s' = maxinputlen s
      else ch' = WEOF)"
proof (induction L a "(ch, pos, s)" arbitrary: ch pos s rule: dump_skip.induct)
  case (1 L a ch pos s)
  show ?case
  proof (cases "pos < startoffset s")
    case False
    with "1.prems" show ?thesis
      by (simp add: dump_skip.simps [of L a ch pos s])
  next
    case True
    obtain ch1 s1 where n: "nextwchar L a s = (ch1, s1)" by (cases "nextwchar L a s")
    from nextwchar_fields [OF n] have f: "startoffset s1 = startoffset s" "maxinputlen s1 = maxinputlen s"
      by simp_all
    from True "1.prems" n have rec: "dump_skip L a (ch1, pos + 1, s1) = (ch', pos', s')"
      by (simp add: dump_skip.simps [of L a ch pos s])
    from True have k: "nat (startoffset s - pos) = Suc (nat (startoffset s - (pos + 1)))"
      by simp
    show ?thesis
    proof (cases "ch1 = WEOF")
      case True
      with rec have "ch' = WEOF" by (simp add: dump_skip.simps [of L a WEOF "pos + 1" s1])
      moreover from True n have "wchars L a s = []" by (simp add: wchars_WEOF)
      ultimately show ?thesis using k by simp
    next
      case False
      from "1.hyps" [OF _ n [symmetric] False rec] True "1.prems"(1)
      have ih: "if nat (startoffset s1 - (pos + 1)) \<le> length (wchars L a s1)
        then ch' \<noteq> WEOF \<and> pos' = max (pos + 1) (startoffset s1) \<and>
             wchars L a s' = drop (nat (startoffset s1 - (pos + 1))) (wchars L a s1) \<and>
             maxinputlen s' = maxinputlen s1
        else ch' = WEOF"
        by simp
      from wchars_Cons [OF n False] have c: "wchars L a s = ch1 # wchars L a s1" .
      from ih f True show ?thesis
        unfolding c k by (auto split: if_splits)
    qed
  qed
qed

lemma dump_fill_chars:
  "n \<le> ls \<Longrightarrow> ls \<le> length line \<Longrightarrow>
   dump_fill L a ls (n, ch, line, s) = (n', ch', line', s') \<Longrightarrow>
     n' = n + min (ls - n) (min (nat (maxinputlen s)) (length (wchars L a s))) \<and>
     length line' = length line \<and>
     take n' line' = take n line @ take (n' - n) (wchars L a s) \<and>
     maxinputlen s' = maxinputlen s - int (n' - n) \<and>
     (if n' - n < min (ls - n) (nat (maxinputlen s)) then ch' = WEOF
      else wchars L a s' = drop (n' - n) (wchars L a s) \<and> (n' = n \<longrightarrow> ch' = ch) \<and>
           (n < n' \<longrightarrow> ch' \<noteq> WEOF))"
proof (induction L a ls "(n, ch, line, s)" arbitrary: n ch line s rule: dump_fill.induct)
  case (1 L a ls n ch line s)
  show ?case
  proof (cases "n < ls \<and> 0 < maxinputlen s")
    case False
    with "1.prems" have "n' = n" "ch' = ch" "line' = line" "s' = s"
      by (simp_all add: dump_fill.simps [of L a ls n ch line s])
    with False "1.prems"(1) show ?thesis by auto
  next
    case True
    obtain ch1 s1 where nx: "nextwchar L a s = (ch1, s1)" by (cases "nextwchar L a s")
    from nextwchar_fields [OF nx] have m: "maxinputlen s1 = maxinputlen s" by simp
    show ?thesis
    proof (cases "ch1 = WEOF")
      case weof: True
      with True nx "1.prems" have "n' = n" "ch' = WEOF" "line' = line" "s' = s1"
        by (simp_all add: dump_fill.simps [of L a ls n ch line s])
      moreover from weof nx have "wchars L a s = []" by (simp add: wchars_WEOF)
      ultimately show ?thesis using True m by auto
    next
      case False
      let ?s2 = "s1\<lparr>maxinputlen := maxinputlen s1 - 1\<rparr>"
      from True nx False "1.prems"(3)
      have rec: "dump_fill L a ls (n + 1, ch1, line[n := ch1], ?s2) = (n', ch', line', s')"
        by (simp add: dump_fill.simps [of L a ls n ch line s])
      have c: "wchars L a s = ch1 # wchars L a s1" by (rule wchars_Cons [OF nx False])
      have c2: "wchars L a ?s2 = wchars L a s1" by (rule wchars_maxinputlen)
      from True "1.prems" have pre: "n + 1 \<le> ls" "ls \<le> length (line[n := ch1])" by simp_all
      note ih0 = "1.hyps" [OF True nx [symmetric] False pre rec, unfolded c2]
      from ih0 have ih:
        "n' = n + 1 + min (ls - (n + 1)) (min (nat (maxinputlen ?s2)) (length (wchars L a s1)))"
        "length line' = length (line[n := ch1])"
        "take n' line' = take (n + 1) (line[n := ch1]) @ take (n' - (n + 1)) (wchars L a s1)"
        "maxinputlen s' = maxinputlen ?s2 - int (n' - (n + 1))"
        "if n' - (n + 1) < min (ls - (n + 1)) (nat (maxinputlen ?s2)) then ch' = WEOF
         else wchars L a s' = drop (n' - (n + 1)) (wchars L a s1) \<and> (n' = n + 1 \<longrightarrow> ch' = ch1) \<and>
              (n + 1 < n' \<longrightarrow> ch' \<noteq> WEOF)"
        by blast+
      from True "1.prems" have nl: "n < length line" by simp
      then have tk: "take (n + 1) (line[n := ch1]) = take n line @ [ch1]"
        by (simp add: take_Suc_conv_app_nth)
      from ih(1) have gt: "n < n'" by simp
      then have d: "n' - n = Suc (n' - (n + 1))" by simp
      obtain x where x: "ls - n = Suc x" using True by (cases "ls - n") auto
      obtain y where y: "nat (maxinputlen s) = Suc y" using True by (cases "nat (maxinputlen s)") auto
      have x': "ls - (n + 1) = x" using x by simp
      have y': "nat (maxinputlen ?s2) = y" using y m by simp
      have a1: "n' = n + min (ls - n) (min (nat (maxinputlen s)) (length (wchars L a s)))"
        using ih(1) unfolding c x y x' y' by simp
      have a3: "take n' line' = take n line @ take (n' - n) (wchars L a s)"
        using ih(3) unfolding tk c d by simp
      have a4: "maxinputlen s' = maxinputlen s - int (n' - n)"
        using ih(4) m gt by simp
      have a5: "if n' - n < min (ls - n) (nat (maxinputlen s)) then ch' = WEOF
         else wchars L a s' = drop (n' - n) (wchars L a s) \<and> (n' = n \<longrightarrow> ch' = ch) \<and>
              (n < n' \<longrightarrow> ch' \<noteq> WEOF)"
      proof (cases "n' - (n + 1) < min (ls - (n + 1)) (nat (maxinputlen ?s2))")
        case True
        from ih(5) have "ch' = WEOF" unfolding if_P [OF True] .
        moreover from True
        have "n' - n < min (ls - n) (nat (maxinputlen s))" unfolding d x y x' y' by simp
        ultimately show ?thesis by simp
      next
        case nb: False
        from ih(5) have "wchars L a s' = drop (n' - (n + 1)) (wchars L a s1) \<and>
            (n' = n + 1 \<longrightarrow> ch' = ch1) \<and> (n + 1 < n' \<longrightarrow> ch' \<noteq> WEOF)"
          unfolding if_not_P [OF nb] .
        then have z: "wchars L a s' = drop (n' - (n + 1)) (wchars L a s1)"
          "n' = n + 1 \<longrightarrow> ch' = ch1" "n + 1 < n' \<longrightarrow> ch' \<noteq> WEOF"
          by blast+
        from nb
        have "\<not> n' - n < min (ls - n) (nat (maxinputlen s))" unfolding d x y x' y' by simp
        moreover have "wchars L a s' = drop (n' - n) (wchars L a s)"
          using z(1) unfolding c d by simp
        moreover have "ch' \<noteq> WEOF" using z(2,3) gt False by (cases "n' = n + 1") auto
        ultimately show ?thesis using gt by simp
      qed
      from ih(2) have a2: "length line' = length line" by simp
      from a1 a2 a3 a4 a5 show ?thesis by blast
    qed
  qed
qed

lemma dump_lines_Nil: "dump_lines L k pos [] = []"
  by (simp add: dump_lines.simps)

lemma dump_lines_Cons:
  "0 < k \<Longrightarrow> xs \<noteq> [] \<Longrightarrow>
     dump_lines L k pos xs =
       renderdumpline L k (take k xs) (length (take k xs)) pos # dump_lines L k (pos + int k) (drop k xs)"
  by (simp add: dump_lines.simps [of L k pos xs])

lemma renderdumpline_take:
  "n \<le> length buf \<Longrightarrow>
     renderdumpline L k buf n pos = renderdumpline L k (take n buf) (length (take n buf)) pos"
  by (simp add: renderdumpline_def)

lemma dump_while_stop:
  "ch = WEOF \<or> maxinputlen s \<le> 0 \<Longrightarrow> dump_while L a ls (ch, pos, line, s, out) = Some (s, out)"
  by (subst dump_while.simps) auto

lemma dump_while_step:
  "ch \<noteq> WEOF \<Longrightarrow> 0 < maxinputlen s \<Longrightarrow> dump_fill L a ls (0, ch, line, s) = (n, ch1, line1, s1) \<Longrightarrow>
     dump_while L a ls (ch, pos, line, s, out) =
       dump_while L a ls (ch1, pos + int n, line1, s1,
         if n \<noteq> 0 then out @ [renderdumpline L ls line1 n pos] else out)"
  by (subst dump_while.simps) simp

lemma take_min_length: "take (min m (length xs)) xs = take m xs"
  by (simp add: min_def)

lemma dump_fill_line:
  assumes "ls \<le> length line" and "dump_fill L a ls (0, ch, line, s) = (n, ch1, line1, s1)"
  shows "n = min ls (min (nat (maxinputlen s)) (length (wchars L a s)))"
    and "length line1 = length line"
    and "take n line1 = take n (wchars L a s)"
    and "maxinputlen s1 = maxinputlen s - int n"
    and "n < min ls (nat (maxinputlen s)) \<Longrightarrow> ch1 = WEOF"
    and "\<not> n < min ls (nat (maxinputlen s)) \<Longrightarrow> wchars L a s1 = drop n (wchars L a s)"
    and "\<not> n < min ls (nat (maxinputlen s)) \<Longrightarrow> 0 < n \<Longrightarrow> ch1 \<noteq> WEOF"
proof -
  note x = dump_fill_chars [OF le0 assms]
  from x [THEN conjunct1] show "n = min ls (min (nat (maxinputlen s)) (length (wchars L a s)))"
    by simp
  from x [THEN conjunct2, THEN conjunct1] show "length line1 = length line" .
  from x [THEN conjunct2, THEN conjunct2, THEN conjunct1]
  show "take n line1 = take n (wchars L a s)" by simp
  from x [THEN conjunct2, THEN conjunct2, THEN conjunct2, THEN conjunct1]
  show "maxinputlen s1 = maxinputlen s - int n" by simp
  note y = x [THEN conjunct2, THEN conjunct2, THEN conjunct2, THEN conjunct2]
  {
    assume "n < min ls (nat (maxinputlen s))"
    then have c: "n - 0 < min (ls - 0) (nat (maxinputlen s))" by simp
    from y show "ch1 = WEOF" unfolding if_P [OF c] .
  }
  {
    assume "\<not> n < min ls (nat (maxinputlen s))"
    then have c: "\<not> n - 0 < min (ls - 0) (nat (maxinputlen s))" by simp
    note z = y [unfolded if_not_P [OF c]]
    from z [THEN conjunct1] show "wchars L a s1 = drop n (wchars L a s)" by simp
    {
      assume "0 < n"
      with z [THEN conjunct2, THEN conjunct2] show "ch1 \<noteq> WEOF" by simp
    }
  }
qed

lemma dump_while_lines:
  "0 < ls \<Longrightarrow> ls \<le> length line \<Longrightarrow> ch \<noteq> WEOF \<Longrightarrow>
     \<exists>s'. dump_while L a ls (ch, pos, line, s, out) =
        Some (s', out @ dump_lines L ls pos (take (nat (maxinputlen s)) (wchars L a s)))"
proof (induction "length (take (nat (maxinputlen s)) (wchars L a s))"
    arbitrary: ch pos line s out rule: less_induct)
  case less
  let ?cs = "wchars L a s"
  let ?M = "nat (maxinputlen s)"
  let ?T = "take ?M ?cs"
  show ?case
  proof (cases "0 < maxinputlen s")
    case False
    then have "?T = []" by simp
    with False show ?thesis
      by (simp add: dump_while_stop dump_lines_Nil)
  next
    case True
    obtain n ch1 line1 s1 where fill: "dump_fill L a ls (0, ch, line, s) = (n, ch1, line1, s1)"
      by (cases "dump_fill L a ls (0, ch, line, s)") auto
    note n = dump_fill_line(1) [OF less.prems(2) fill]
      and len = dump_fill_line(2) [OF less.prems(2) fill]
      and tk = dump_fill_line(3) [OF less.prems(2) fill]
      and m1 = dump_fill_line(4) [OF less.prems(2) fill]
      and weof = dump_fill_line(5) [OF less.prems(2) fill]
      and more = dump_fill_line(6) [OF less.prems(2) fill]
      and char = dump_fill_line(7) [OF less.prems(2) fill]
    note step = dump_while_step [OF less.prems(3) True fill, of pos out]
    from True less.prems(1) have pos_min: "0 < min ls ?M" by simp
    have nT: "n = length (take ls ?T)" using n by (simp add: min.commute min.left_commute)
    have "take n ?cs = take (min ls ?M) ?cs"
      unfolding n min.assoc [symmetric] by (rule take_min_length)
    then have tkT: "take n ?cs = take ls ?T" by simp
    show ?thesis
    proof (cases "n = 0")
      case True
      with pos_min weof have "ch1 = WEOF" by simp
      moreover from True n pos_min have "?cs = []" by (auto simp: min_def split: if_splits)
      ultimately show ?thesis using step True
        by (simp add: dump_while_stop dump_lines_Nil)
    next
      case False
      then have Tne: "?T \<noteq> []" using nT by auto
      from n less.prems(2) len have nl: "n \<le> length line1" by simp
      have eqw: "take n line1 = take ls ?T" by (simp only: tk tkT)
      have r: "renderdumpline L ls line1 n pos = renderdumpline L ls (take ls ?T) (length (take ls ?T)) pos"
        unfolding renderdumpline_take [OF nl, of L ls pos] eqw by (rule refl)
      have hd: "dump_lines L ls pos ?T =
          renderdumpline L ls line1 n pos # dump_lines L ls (pos + int ls) (drop ls ?T)"
        using dump_lines_Cons [OF less.prems(1) Tne, of L pos] r by simp
      show ?thesis
      proof (cases "n < min ls ?M")
        case True
        with weof have "ch1 = WEOF" by simp
        moreover from True n have "length ?cs < ls" "length ?cs < ?M"
          by (auto simp: min_def split: if_splits)
        then have "drop ls ?T = []" by simp
        ultimately show ?thesis using step False hd
          by (simp add: dump_while_stop dump_lines_Nil)
      next
        case nlt: False
        from more [OF nlt] char [OF nlt] False
        have w1: "wchars L a s1 = drop n ?cs" and c1: "ch1 \<noteq> WEOF"
          by simp_all
        from nlt n have nmin: "n = min ls ?M" by (simp add: min_def split: if_splits)
        have "nat (maxinputlen s - int n) = ?M - n" by linarith
        then have T1: "take (nat (maxinputlen s1)) (wchars L a s1) = drop n ?T"
          unfolding w1 m1 by (simp add: drop_take)
        have lt: "0 < length ?T" using Tne by blast
        have "length (drop n ?T) = length ?T - n" by (rule length_drop)
        with lt False have "length (drop n ?T) < length ?T" by linarith
        with T1 have sm: "length (take (nat (maxinputlen s1)) (wchars L a s1)) < length ?T" by simp
        from less.hyps [OF sm less.prems(1) _ c1, of line1 "pos + int n"
            "out @ [renderdumpline L ls line1 n pos]"] less.prems(2) len T1
        obtain s' where ih: "dump_while L a ls (ch1, pos + int n, line1, s1,
            out @ [renderdumpline L ls line1 n pos]) =
          Some (s', (out @ [renderdumpline L ls line1 n pos]) @ dump_lines L ls (pos + int n) (drop n ?T))"
          by auto
        have "dump_lines L ls (pos + int n) (drop n ?T) = dump_lines L ls (pos + int ls) (drop ls ?T)"
        proof (cases "n = ls")
          case True
          then show ?thesis by simp
        next
          case False
          with nmin have "?M < ls" "n = ?M" by (auto simp: min_def split: if_splits)
          then have "drop n ?T = []" "drop ls ?T = []" by simp_all
          then show ?thesis by (simp add: dump_lines_Nil)
        qed
        with ih step False hd show ?thesis by simp
      qed
    qed
  qed
qed

lemma windows_Nil: "windows k [] = []"
  by (simp add: windows.simps)

lemma windows_Cons:
  "0 < k \<Longrightarrow> xs \<noteq> [] \<Longrightarrow> windows k xs = take k xs # windows k (drop k xs)"
  by (simp add: windows.simps [of k xs])

lemma windows_eq_Nil: "0 < k \<Longrightarrow> windows k xs = [] \<longleftrightarrow> xs = []"
  by (cases "xs = []") (simp_all add: windows_Nil windows_Cons)

lemma concat_windows: "0 < k \<Longrightarrow> concat (windows k xs) = xs"
proof (induction k xs rule: windows.induct)
  case (1 k xs)
  show ?case
  proof (cases "xs = []")
    case True
    then show ?thesis by (simp add: windows_Nil)
  next
    case False
    with "1.IH" "1.prems" show ?thesis by (simp add: windows_Cons)
  qed
qed

lemma windows_lengths:
  "0 < k \<Longrightarrow> i < length (windows k xs) \<Longrightarrow>
     0 < length (windows k xs ! i) \<and> length (windows k xs ! i) \<le> k \<and>
     (Suc i < length (windows k xs) \<longrightarrow> length (windows k xs ! i) = k)"
proof (induction k xs arbitrary: i rule: windows.induct)
  case (1 k xs)
  from "1.prems" have ne: "xs \<noteq> []" by (auto simp: windows_Nil)
  note w = windows_Cons [OF "1.prems"(1) ne]
  show ?case
  proof (cases i)
    case 0
    have "Suc 0 < length (windows k xs) \<Longrightarrow> length (take k xs) = k"
    proof -
      assume "Suc 0 < length (windows k xs)"
      then have "windows k (drop k xs) \<noteq> []" unfolding w by auto
      then have "drop k xs \<noteq> []" by (auto simp: windows_Nil)
      then show ?thesis by simp
    qed
    with 0 ne "1.prems"(1) show ?thesis unfolding w by auto
  next
    case (Suc j)
    with "1.prems"(2) have "j < length (windows k (drop k xs))" unfolding w by simp
    from "1.IH" [OF _ "1.prems"(1) this] "1.prems"(1) ne Suc show ?thesis
      unfolding w by simp
  qed
qed

lemma dump_lines_enumerate:
  "0 < k \<Longrightarrow>
     dump_lines L k (pos + int (j * k)) xs =
       map (\<lambda>(i, w). renderdumpline L k w (length w) (pos + int (i * k))) (enumerate j (windows k xs))"
proof (induction k xs arbitrary: j rule: windows.induct)
  case (1 k xs)
  show ?case
  proof (cases "xs = []")
    case True
    then show ?thesis by (simp add: windows_Nil dump_lines_Nil)
  next
    case False
    have e: "pos + int (j * k) + int k = pos + int (Suc j * k)" by (simp add: algebra_simps)
    have "dump_lines L k (pos + int (j * k)) xs =
        renderdumpline L k (take k xs) (length (take k xs)) (pos + int (j * k))
        # dump_lines L k (pos + int (Suc j * k)) (drop k xs)"
      unfolding dump_lines_Cons [OF "1.prems" False] e by (rule refl)
    also have "dump_lines L k (pos + int (Suc j * k)) (drop k xs) =
        map (\<lambda>(i, w). renderdumpline L k w (length w) (pos + int (i * k)))
          (enumerate (Suc j) (windows k (drop k xs)))"
      using "1.prems" False by (intro "1.IH") simp_all
    finally show ?thesis
      unfolding windows_Cons [OF "1.prems" False] by simp
  qed
qed

text \<open>
  Claim C3. With a line width between 1 and 256 (the size of the line buffer),
  \<^verbatim>\<open>dump\<close> returns, and it has called \<^verbatim>\<open>renderdumpline\<close> once for each window of
  \<open>linesize\<close> characters of the input behind the first \<open>startoffset\<close> characters and
  within the next \<open>maxinputlen\<close> ones, with the position of the first character of the
  window. The windows together are these characters,
  \<open>min maxinputlen (length input - startoffset)\<close> many, and each window but the last
  holds \<open>linesize\<close> of them.
\<close>

theorem dump_windows:
  assumes "0 < ls" and "ls \<le> 256"
  shows "let cs = take (nat (maxinputlen s)) (drop (nat (startoffset s)) (wchars L a s));
             ws = windows ls cs
         in (\<exists>s'. dump L a ls s =
               Some (s', map (\<lambda>(i, w). renderdumpline L ls w (length w)
                                    (int (nat (startoffset s)) + int (i * ls)))
                             (enumerate 0 ws))) \<and>
            concat ws = cs \<and>
            length cs = min (nat (maxinputlen s)) (length (wchars L a s) - nat (startoffset s)) \<and>
            (\<forall>i<length ws. 0 < length (ws ! i) \<and> length (ws ! i) \<le> ls \<and>
                (Suc i < length ws \<longrightarrow> length (ws ! i) = ls))"
proof -
  let ?S = "nat (startoffset s)"
  let ?cs = "take (nat (maxinputlen s)) (drop ?S (wchars L a s))"
  let ?ws = "windows ls ?cs"
  let ?out = "map (\<lambda>(i, w). renderdumpline L ls w (length w) (int ?S + int (i * ls))) (enumerate 0 ?ws)"
  obtain ch1 pos1 s1 where sk: "dump_skip L a (0, 0, s) = (ch1, pos1, s1)"
    by (cases "dump_skip L a (0, 0, s)") auto
  have z: "(0 :: wchar) \<noteq> WEOF" by (simp add: WEOF_def)
  note skip = dump_skip_chars [OF z sk]
  have lines: "dump_lines L ls (int ?S) ?cs = ?out"
    using dump_lines_enumerate [OF assms(1), of L "int ?S" 0 ?cs] by simp
  have run: "\<exists>s'. dump L a ls s = Some (s', ?out)"
  proof (cases "nat (startoffset s - 0) \<le> length (wchars L a s)")
    case True
    with skip have c: "ch1 \<noteq> WEOF" and p: "pos1 = max 0 (startoffset s)"
      and w: "wchars L a s1 = drop (nat (startoffset s - 0)) (wchars L a s)"
      and m: "maxinputlen s1 = maxinputlen s"
      by simp_all
    have len: "ls \<le> length (replicate 256 (0 :: wchar))" using assms(2) by simp
    from dump_while_lines [OF assms(1) len c, of L a pos1 s1 "[]"]
    obtain s' where "dump_while L a ls (ch1, pos1, replicate 256 0, s1, []) =
        Some (s', dump_lines L ls pos1 (take (nat (maxinputlen s1)) (wchars L a s1)))"
      by auto
    moreover have "pos1 = int ?S" using p by simp
    ultimately have "dump L a ls s = Some (s', dump_lines L ls (int ?S) ?cs)"
      using sk w m by (simp add: dump_def)
    with lines show ?thesis by auto
  next
    case False
    with skip have c: "ch1 = WEOF" by simp
    from False have "?cs = []" by simp
    then have "?ws = []" by (simp only: windows_Nil)
    then have "?out = []" by (simp only: enumerate_simps list.map)
    with c sk show ?thesis by (simp add: dump_def dump_while_stop)
  qed
  have cc: "concat ?ws = ?cs" by (rule concat_windows [OF assms(1)])
  have ll: "length ?cs = min (nat (maxinputlen s)) (length (wchars L a s) - ?S)"
    by (simp add: min.commute)
  have wl: "\<forall>i<length ?ws. 0 < length (?ws ! i) \<and> length (?ws ! i) \<le> ls \<and>
                (Suc i < length ?ws \<longrightarrow> length (?ws ! i) = ls)"
    using windows_lengths [OF assms(1)] by blast
  from run cc ll wl show ?thesis unfolding Let_def by blast
qed

text \<open>
  With \<^verbatim>\<open>-s 2 -l 1\<close> the input \<^verbatim>\<open>abcde\<close> gives one line, which holds the third letter at
  the address \<^verbatim>\<open>00000002\<close>.
\<close>

theorem dump_windows_witness:
  "(0 :: nat) < 8 \<and> (8 :: nat) \<le> 256 \<and>
   wchars utf8 False offset_input = wstr ''abcde'' \<and>
   (\<exists>s'. dump utf8 False 8 offset_input = Some (s', [renderdumpline utf8 8 [wc (CHR ''c'')] 1 2])) \<and>
   renderdumpline utf8 8 [wc (CHR ''c'')] 1 2 =
     wstr ''00000002:     63'' @ replicate 47 (wc (CHR '' '')) @ wstr ''c '' @ [wc (CHR 0x0A)]"
proof -
  have h: "(0 :: nat) < 8" "(8 :: nat) \<le> 256" by simp_all
  have cs: "wchars utf8 False offset_input = wstr ''abcde''"
    by code_simp
  have tk: "take (nat 1) (drop (nat 2) (wstr ''abcde'')) = [wc (CHR ''c'')]"
    by code_simp
  have ws: "windows 8 [wc (CHR ''c'')] = [[wc (CHR ''c'')]]"
    by code_simp
  have so: "startoffset offset_input = 2" "maxinputlen offset_input = 1"
    by (simp_all add: offset_input_def)
  have r: "renderdumpline utf8 8 [wc (CHR ''c'')] 1 2 =
     wstr ''00000002:     63'' @ replicate 47 (wc (CHR '' '')) @ wstr ''c '' @ [wc (CHR 0x0A)]"
    by code_simp
  from dump_windows [OF h, of offset_input utf8 False]
  have "\<exists>s'. dump utf8 False 8 offset_input = Some (s', [renderdumpline utf8 8 [wc (CHR ''c'')] 1 2])"
    unfolding cs so tk ws Let_def by (simp add: enumerate_eq_zip)
  with h cs r show ?thesis by blast
qed

section \<open>Round trips\<close>

text \<open>
  Claim C1 (round trip on validly encoded input) fails on the code. The input is the
  single byte \<^verbatim>\<open>0x61\<close>, the letter a, with the default line width 8. \<^verbatim>\<open>dump\<close> writes
  one line with the field \<^verbatim>\<open>61\<close>, 47 blanks and the glyph a. In \<^verbatim>\<open>translatedumpline\<close>
  the conversion \<^verbatim>\<open>%6X\<close> skips the blanks of each of the seven fields that are left
  over and converts the glyph a as the hexadecimal number A: the pipe writes the letter
  and seven newline characters.
\<close>

theorem roundtrip_short_line_diverges:
  "roundtrip utf8 [] [0x61] = Some (Inr (0, [0x61, 0x0A, 0x0A, 0x0A, 0x0A, 0x0A, 0x0A, 0x0A]))"
  by code_simp

text \<open>
  Claim C2 (round trip with tolerated bytes) fails on the code in the same way. The
  input is the letter a and the byte \<^verbatim>\<open>FF\<close>, with \<^verbatim>\<open>-i\<close>: the pipe writes both bytes
  and six newline characters, converted from the glyph a behind the padding. The
  scenario of the claim holds by itself: \<^verbatim>\<open>nextwchar\<close> returns the byte \<^verbatim>\<open>FF\<close> with
  the tag, its field is \<^verbatim>\<open>*FF\<close> behind three blanks, \<^verbatim>\<open>translatedumpline\<close> writes
  the single byte \<^verbatim>\<open>FF\<close> for that line, and the pipe gives the byte back, where the
  character U+00FF would be the bytes \<^verbatim>\<open>C3 BF\<close>.
\<close>

theorem roundtrip_rawbyte_diverges:
  "roundtrip utf8 [(CHR ''i'', None)] [0x61, 0xFF] =
     Some (Inr (0, [0x61, 0xFF, 0x0A, 0x0A, 0x0A, 0x0A, 0x0A, 0x0A])) \<and>
   nextwchar utf8 True \<lparr>startoffset = 0, maxinputlen = 1, filenames = [Some [0xFF]],
       currentfile = None, exitcode = 0\<rparr> =
     (0x100000FF, \<lparr>startoffset = 0, maxinputlen = 1, filenames = [Some [0xFF]],
       currentfile = Some \<lparr>unread = [], ferr = False\<rparr>, exitcode = 0\<rparr>) \<and>
   hexfield 0x100000FF = wstr ''   *FF'' \<and>
   translatedumpline utf8 8 (Some (renderdumpline utf8 8 [0x100000FF] 1 0)) \<lparr>mbs = (), written = []\<rparr> =
     Inr (1, \<lparr>mbs = (), written = [[0xFF]]\<rparr>) \<and>
   roundtrip utf8 [(CHR ''i'', None)] [0xFF] = Some (Inr (0, [0xFF])) \<and>
   utf8_wcrtomb () 0xFF = (Some [0xC3, 0xBF], ())"
  by code_simp

end
